theory Spec2Isabelle
  imports Complex_Main "HOL-Library.Char_ord" "HOL-Library.List_Lexorder"
    "HOL-Library.Log_Nat" "HOL-Library.Multiset"
begin

section \<open>Identity resolution and conflict resolution of HolisticCustomerProfileAggregator\<close>

text \<open>
  The development follows the class \<open>HolisticCustomerProfileAggregator\<close>: the weighted vote of
  \<open>#establishConsensusIdentity\<close>, the graph construction of \<open>#resolveCustomerIdentity\<close> and the
  loop of \<open>#resolveProfileConflicts\<close>.

  The numbers of the vote are IEEE 754 binary64 values with the arithmetic of the language:
  every sum and product is rounded to the nearest double, ties to even, with infinities and
  \<open>NaN\<close>. A \<open>Map\<close> is an association list in insertion order with distinct keys; an iterable
  of \<open>[key, value]\<close> pairs is a list of pairs. A thrown exception or a rejected promise is the
  left summand of a result.
\<close>

subsection \<open>JavaScript numbers\<close>

text \<open>
  A finite number is held by its exact value. The two zeros are not told apart: the source
  adds, multiplies, subtracts and compares with zero, and none of these separates them.
\<close>

datatype number = Fin rat | PosInf | NegInf | NaN

text \<open>The binary exponent of a positive rational: \<open>2 powi binade x \<le> x < 2 powi (binade x + 1)\<close>.\<close>

definition binade :: "rat \<Rightarrow> int" where
  "binade x =
     (let d = bitlen (fst (quotient_of x)) - bitlen (snd (quotient_of x))
      in if 2 powi d \<le> x then d else d - 1)"

text \<open>Rounding to the nearest integer, a tie going to the even one.\<close>

definition half_even :: "rat \<Rightarrow> int" where
  "half_even z =
     (let f = \<lfloor>z\<rfloor>; r = z - of_int f
      in if r < 1 / 2 then f else if 1 / 2 < r then f + 1 else if even f then f else f + 1)"

text \<open>
  The exponent of the binade in which a value is rounded, the least normal exponent for a
  subnormal value, and the distance of two neighbouring doubles there (52 fraction bits).
\<close>

definition expo :: "rat \<Rightarrow> int" where
  "expo x = max (binade \<bar>x\<bar>) (- 1022)"

definition ulp :: "rat \<Rightarrow> rat" where
  "ulp x = 2 powi (expo x - 52)"

definition nearest :: "rat \<Rightarrow> rat" where
  "nearest x = (if x = 0 then 0 else of_int (half_even (x / ulp x)) * ulp x)"

text \<open>The double of an exact result; a rounded value of magnitude \<open>2 ^ 1024\<close> is infinite.\<close>

definition fl :: "rat \<Rightarrow> number" where
  "fl x =
     (let y = nearest x
      in if 2 ^ 1024 \<le> y then PosInf else if y \<le> - (2 ^ 1024) then NegInf else Fin y)"

text \<open>The number that a decimal literal of the source text denotes.\<close>

definition dbl :: "rat \<Rightarrow> number" where
  "dbl x = fl x"

fun js_neg :: "number \<Rightarrow> number" where
  "js_neg (Fin a) = Fin (- a)"
| "js_neg PosInf = NegInf"
| "js_neg NegInf = PosInf"
| "js_neg NaN = NaN"

fun js_add :: "number \<Rightarrow> number \<Rightarrow> number" where
  "js_add NaN y = NaN"
| "js_add x NaN = NaN"
| "js_add (Fin a) (Fin b) = fl (a + b)"
| "js_add PosInf NegInf = NaN"
| "js_add NegInf PosInf = NaN"
| "js_add PosInf y = PosInf"
| "js_add x PosInf = PosInf"
| "js_add NegInf y = NegInf"
| "js_add x NegInf = NegInf"

definition js_sub :: "number \<Rightarrow> number \<Rightarrow> number" where
  "js_sub x y = js_add x (js_neg y)"

fun js_mul :: "number \<Rightarrow> number \<Rightarrow> number" where
  "js_mul NaN y = NaN"
| "js_mul x NaN = NaN"
| "js_mul (Fin a) (Fin b) = fl (a * b)"
| "js_mul (Fin a) PosInf = (if 0 < a then PosInf else if a < 0 then NegInf else NaN)"
| "js_mul (Fin a) NegInf = (if 0 < a then NegInf else if a < 0 then PosInf else NaN)"
| "js_mul PosInf (Fin b) = (if 0 < b then PosInf else if b < 0 then NegInf else NaN)"
| "js_mul NegInf (Fin b) = (if 0 < b then NegInf else if b < 0 then PosInf else NaN)"
| "js_mul PosInf PosInf = PosInf"
| "js_mul PosInf NegInf = NegInf"
| "js_mul NegInf PosInf = NegInf"
| "js_mul NegInf NegInf = PosInf"

text \<open>\<open>v > 0\<close> and \<open>v < 0\<close>, both false of \<open>NaN\<close>; \<open>a <= b\<close>, false when either is \<open>NaN\<close>.\<close>

fun positive :: "number \<Rightarrow> bool" where
  "positive (Fin a) = (0 < a)"
| "positive PosInf = True"
| "positive NegInf = False"
| "positive NaN = False"

fun negative :: "number \<Rightarrow> bool" where
  "negative (Fin a) = (a < 0)"
| "negative PosInf = False"
| "negative NegInf = True"
| "negative NaN = False"

fun num_le :: "number \<Rightarrow> number \<Rightarrow> bool" where
  "num_le NaN y = False"
| "num_le x NaN = False"
| "num_le (Fin a) (Fin b) = (a \<le> b)"
| "num_le NegInf y = True"
| "num_le x PosInf = True"
| "num_le x NegInf = False"
| "num_le PosInf y = False"

text \<open>The numbers that are neither infinite nor \<open>NaN\<close>.\<close>

fun is_finite :: "number \<Rightarrow> bool" where
  "is_finite (Fin a) = True"
| "is_finite x = False"

text \<open>\<open>a < b\<close>, false when either is \<open>NaN\<close>.\<close>

definition num_less :: "number \<Rightarrow> number \<Rightarrow> bool" where
  "num_less x y \<longleftrightarrow> num_le x y \<and> \<not> num_le y x"

text \<open>
  The values that are doubles: a finite one is its own rounding. Every result of the
  arithmetic is one.
\<close>

fun is_double :: "number \<Rightarrow> bool" where
  "is_double (Fin a) = (fl a = Fin a)"
| "is_double x = True"

subsection \<open>Data\<close>

type_synonym identity = string

type_synonym time_range = "nat \<times> nat"

record metadata =
  source :: string
  confidence :: number
  relationship :: string
  temporalScope :: time_range

record resolution =
  identities :: "(identity \<times> metadata) list"

record vote =
  totalWeight :: number
  sources :: "string list"

type_synonym votes = "(identity \<times> vote) list"

text \<open>
  \<open>TypeError\<close> is the exception of the JavaScript runtime. \<open>StrategyFailure\<close> is the rejection
  of a resolution strategy, whose reason is the strategy's own and is not modelled. The last
  three names are the error taxonomy of the specification; \<open>NoIdentityEvidenceError\<close> is
  raised nowhere in the source.
\<close>

datatype failure =
  TypeError
  | StrategyFailure
  | DanglingReferenceError
  | NoIdentityEvidenceError
  | StrategyMismatchError

subsection \<open>Map in insertion order\<close>

definition map_get :: "('k \<times> 'v) list \<Rightarrow> 'k \<Rightarrow> 'v option" where
  "map_get m k = map_of m k"

text \<open>\<open>Map.prototype.set\<close>: an existing key keeps its place, a new key goes to the end.\<close>

fun map_set :: "('k \<times> 'v) list \<Rightarrow> 'k \<Rightarrow> 'v \<Rightarrow> ('k \<times> 'v) list" where
  "map_set [] k v = [(k, v)]"
| "map_set ((k', v') # m) k v =
     (if k' = k then (k, v) # m else (k', v') # map_set m k v)"

subsection \<open>The identity graph\<close>

text \<open>
  Modelled from the spec: the class \<open>CustomerIdentityGraph\<close> is not in the source. A node
  carries the origin sources and a confidence, an edge the relationship, the confidence and
  the temporal validity; there is at most one node for an identity.
\<close>

record node =
  originSources :: "string list"
  nodeConfidence :: number

record node_metadata =
  nodeSource :: string
  givenConfidence :: number

record edge_metadata =
  edgeRelationship :: string
  edgeConfidence :: number
  temporalValidity :: time_range

record edge =
  edgeFrom :: identity
  edgeTo :: identity
  edgeData :: edge_metadata

record identity_graph =
  nodes :: "(identity \<times> node) list"
  edges :: "edge list"

text \<open>
  Modelled from the spec: the class \<open>CustomerIdentityGraph\<close> is not in the source. A graph
  is created empty for every request.
\<close>

definition new_graph :: identity_graph where
  "new_graph = \<lparr>nodes = [], edges = []\<rparr>"

text \<open>
  Modelled from the spec: the class \<open>CustomerIdentityGraph\<close> is not in the source.
  \<open>addNode\<close> inserts the node or, when the identity is present, keeps the higher confidence
  and records the additional origin source.
\<close>

definition addIdentityNode :: "identity_graph \<Rightarrow> identity \<Rightarrow> node_metadata \<Rightarrow> identity_graph" where
  "addIdentityNode g ident md =
     (case map_get (nodes g) ident of
        None \<Rightarrow>
          g\<lparr>nodes := map_set (nodes g) ident
               \<lparr>originSources = [nodeSource md], nodeConfidence = givenConfidence md\<rparr>\<rparr>
      | Some n \<Rightarrow>
          g\<lparr>nodes := map_set (nodes g) ident
               \<lparr>originSources =
                  (if nodeSource md \<in> set (originSources n) then originSources n
                   else originSources n @ [nodeSource md]),
                nodeConfidence =
                  (if positive (js_sub (givenConfidence md) (nodeConfidence n))
                   then givenConfidence md else nodeConfidence n)\<rparr>\<rparr>)"

text \<open>
  Modelled from the spec: the class \<open>CustomerIdentityGraph\<close> is not in the source.
  \<open>addEdge\<close> fails with \<open>DanglingReferenceError\<close> when an endpoint is absent and appends the
  edge otherwise, without looking for an equal one.
\<close>

definition addIdentityEdge ::
  "identity_graph \<Rightarrow> identity \<Rightarrow> identity \<Rightarrow> edge_metadata \<Rightarrow> failure + identity_graph" where
  "addIdentityEdge g a b md =
     (if map_get (nodes g) a = None \<or> map_get (nodes g) b = None
      then Inl DanglingReferenceError
      else Inr (g\<lparr>edges := edges g @ [\<lparr>edgeFrom = a, edgeTo = b, edgeData = md\<rparr>]\<rparr>))"

text \<open>The invariant of the specification: no edge dangles.\<close>

definition well_formed :: "identity_graph \<Rightarrow> bool" where
  "well_formed g =
     list_all (\<lambda>e. map_get (nodes g) (edgeFrom e) \<noteq> None \<and> map_get (nodes g) (edgeTo e) \<noteq> None)
       (edges g)"

subsection \<open>What the class takes from outside the source\<close>

text \<open>
  The private methods that the source calls and does not define, and \<open>Array.prototype.sort\<close>
  of the engine, here at the type of the entries of the vote map.
\<close>

record helpers =
  calculateResolutionWeights :: "resolution list \<Rightarrow> number list"
  generateMasterCustomerId :: "identity \<Rightarrow> string"
  calculateOverallResolutionConfidence :: "identity_graph \<Rightarrow> number"
  extractIdentityAttributes :: "identity \<Rightarrow> (string \<times> string) list"
  arraySort ::
    "(identity \<times> vote \<Rightarrow> identity \<times> vote \<Rightarrow> number) \<Rightarrow> votes \<Rightarrow> votes"

text \<open>
  \<open>SortCompare\<close> of ECMAScript, through which the sort reads the comparator: a result
  \<open>NaN\<close> is read as zero. The entries of the vote map are never \<open>undefined\<close>.
\<close>

definition sort_compare :: "('a \<Rightarrow> 'a \<Rightarrow> number) \<Rightarrow> 'a \<Rightarrow> 'a \<Rightarrow> number" where
  "sort_compare comparefn a b = (let v = comparefn a b in if v = NaN then Fin 0 else v)"

text \<open>
  What ECMAScript asks of a comparator to be consistent on a set of values: the value of a
  comparison is never \<open>NaN\<close>; comparing equal is reflexive, symmetric and transitive;
  comparing less and comparing greater are transitive.
\<close>

definition consistent :: "('a \<Rightarrow> 'a \<Rightarrow> number) \<Rightarrow> 'a set \<Rightarrow> bool" where
  "consistent cmp S \<longleftrightarrow>
     (\<forall>a\<in>S. \<forall>b\<in>S. cmp a b \<noteq> NaN)
     \<and> (\<forall>a\<in>S. cmp a a = Fin 0)
     \<and> (\<forall>a\<in>S. \<forall>b\<in>S. cmp a b = Fin 0 \<longrightarrow> cmp b a = Fin 0)
     \<and> (\<forall>a\<in>S. \<forall>b\<in>S. \<forall>c\<in>S. cmp a b = Fin 0 \<and> cmp b c = Fin 0 \<longrightarrow> cmp a c = Fin 0)
     \<and> (\<forall>a\<in>S. \<forall>b\<in>S. \<forall>c\<in>S.
           negative (cmp a b) \<and> negative (cmp b c) \<longrightarrow> negative (cmp a c))
     \<and> (\<forall>a\<in>S. \<forall>b\<in>S. \<forall>c\<in>S.
           positive (cmp a b) \<and> positive (cmp b c) \<longrightarrow> positive (cmp a c))"

text \<open>
  What ECMAScript promises of \<open>Array.prototype.sort\<close>: the result is a permutation of the
  array; when \<open>SortCompare\<close> is consistent on its elements, no element stands behind one
  that it compares less than, and elements that compare equal keep their order. Otherwise
  the order is left to the engine.
\<close>

definition ecma_sort :: "(('a \<Rightarrow> 'a \<Rightarrow> number) \<Rightarrow> 'a list \<Rightarrow> 'a list) \<Rightarrow> bool" where
  "ecma_sort srt \<longleftrightarrow>
     (\<forall>comparefn xs.
        mset (srt comparefn xs) = mset xs
        \<and> (consistent (sort_compare comparefn) (set xs) \<longrightarrow>
             sorted_wrt (\<lambda>a b. \<not> negative (sort_compare comparefn b a)) (srt comparefn xs)
             \<and> (\<forall>a\<in>set xs.
                   filter (\<lambda>b. sort_compare comparefn a b = Fin 0) (srt comparefn xs)
                     = filter (\<lambda>b. sort_compare comparefn a b = Fin 0) xs)))"

text \<open>
  A sort that keeps the promise: insertion from the right, where an entry moves behind
  another only when the comparator is positive for the pair. Used in the concrete runs.
\<close>

fun place :: "('a \<Rightarrow> 'a \<Rightarrow> number) \<Rightarrow> 'a \<Rightarrow> 'a list \<Rightarrow> 'a list" where
  "place cmp a [] = [a]"
| "place cmp a (b # bs) = (if positive (cmp a b) then b # place cmp a bs else a # b # bs)"

definition array_sort :: "('a \<Rightarrow> 'a \<Rightarrow> number) \<Rightarrow> 'a list \<Rightarrow> 'a list" where
  "array_sort cmp entries = foldr (place cmp) entries []"

subsection \<open>\<open>#establishConsensusIdentity\<close>\<close>

text \<open>
  \<open>confidenceWeights[i]\<close>: past the end of the array it is \<open>undefined\<close>, which the
  multiplication of line 78 turns into \<open>NaN\<close>.
\<close>

definition weight_at :: "number list \<Rightarrow> nat \<Rightarrow> number" where
  "weight_at confidenceWeights i =
     (if i < length confidenceWeights then confidenceWeights ! i else NaN)"

text \<open>The body of the inner loop (lines 77 to 80).\<close>

definition cast_vote :: "number \<Rightarrow> identity \<times> metadata \<Rightarrow> votes \<Rightarrow> votes" where
  "cast_vote weight claim identityVotes =
     (let currentVote =
            (case map_get identityVotes (fst claim) of
               Some v \<Rightarrow> v
             | None \<Rightarrow> \<lparr>totalWeight = Fin 0, sources = []\<rparr>);
          currentVote' = currentVote
            \<lparr>totalWeight :=
               js_add (totalWeight currentVote) (js_mul weight (confidence (snd claim))),
             sources := sources currentVote @ [source (snd claim)]\<rparr>
      in map_set identityVotes (fst claim) currentVote')"

fun inner_loop :: "number \<Rightarrow> (identity \<times> metadata) list \<Rightarrow> votes \<Rightarrow> votes" where
  "inner_loop weight [] identityVotes = identityVotes"
| "inner_loop weight (claim # rest) identityVotes =
     inner_loop weight rest (cast_vote weight claim identityVotes)"

text \<open>The outer loop (lines 72 to 82), from index \<open>i\<close>.\<close>

function outer_loop :: "number list \<Rightarrow> resolution list \<Rightarrow> nat \<Rightarrow> votes \<Rightarrow> votes" where
  "outer_loop confidenceWeights resolutionResults i identityVotes =
     (if i < length resolutionResults then
        outer_loop confidenceWeights resolutionResults (i + 1)
          (inner_loop (weight_at confidenceWeights i) (identities (resolutionResults ! i))
             identityVotes)
      else identityVotes)"
  by pat_completeness auto
termination
  by (relation "measure (\<lambda>(ws, rs, i, m). length rs - i)") auto

declare outer_loop.simps [simp del]

text \<open>Lines 69 to 82: the weights are computed from the results, then the votes are cast.\<close>

definition tally :: "helpers \<Rightarrow> resolution list \<Rightarrow> votes" where
  "tally h resolutionResults =
     outer_loop (calculateResolutionWeights h resolutionResults) resolutionResults 0 []"

text \<open>The comparator of line 85.\<close>

definition by_total_weight_desc :: "identity \<times> vote \<Rightarrow> identity \<times> vote \<Rightarrow> number" where
  "by_total_weight_desc a b = js_sub (totalWeight (snd b)) (totalWeight (snd a))"

text \<open>
  Lines 84 to 86: \<open>.slice(0, 1)[0]\<close> is \<open>undefined\<close> on an empty array and reading its
  index \<open>0\<close> throws.
\<close>

definition establishConsensusIdentity :: "helpers \<Rightarrow> resolution list \<Rightarrow> failure + identity" where
  "establishConsensusIdentity h resolutionResults =
     (case take 1 (arraySort h by_total_weight_desc (tally h resolutionResults)) of
        [] \<Rightarrow> Inl TypeError
      | entry # _ \<Rightarrow> Inr (fst entry))"

text \<open>The vote and the contributing sources a key holds in the map; the defaults of line 77.\<close>

definition vote_of :: "votes \<Rightarrow> identity \<Rightarrow> number" where
  "vote_of identityVotes k =
     (case map_get identityVotes k of Some v \<Rightarrow> totalWeight v | None \<Rightarrow> Fin 0)"

definition sources_of :: "votes \<Rightarrow> identity \<Rightarrow> string list" where
  "sources_of identityVotes k =
     (case map_get identityVotes k of Some v \<Rightarrow> sources v | None \<Rightarrow> [])"

definition accumulated_vote :: "helpers \<Rightarrow> resolution list \<Rightarrow> identity \<Rightarrow> number" where
  "accumulated_vote h rs k = vote_of (tally h rs) k"

definition contributing_sources :: "helpers \<Rightarrow> resolution list \<Rightarrow> identity \<Rightarrow> string list" where
  "contributing_sources h rs k = sources_of (tally h rs) k"

text \<open>
  The accumulated vote in the words of the specification: for one key, over its claims in
  the order of the strategies and of their claims, \<open>vote += strategyWeight[i] *
  claim.confidence\<close>, from zero.
\<close>

definition spec_claims :: "number list \<Rightarrow> resolution list \<Rightarrow> identity \<Rightarrow> (number \<times> number) list" where
  "spec_claims ws rs k =
     concat (map (\<lambda>i. map (\<lambda>c. (weight_at ws i, confidence (snd c)))
                         (filter (\<lambda>c. fst c = k) (identities (rs ! i))))
               [0..<length rs])"

definition spec_accumulated_vote :: "number list \<Rightarrow> resolution list \<Rightarrow> identity \<Rightarrow> number" where
  "spec_accumulated_vote ws rs k =
     foldl (\<lambda>v wc. js_add v (js_mul (fst wc) (snd wc))) (Fin 0) (spec_claims ws rs k)"

text \<open>The keys that are claimed, in the order the loops meet them.\<close>

definition claimed_keys :: "resolution list \<Rightarrow> identity list" where
  "claimed_keys rs = concat (map (\<lambda>r. map fst (identities r)) rs)"

text \<open>
  The keys of a \<open>Map\<close> filled from a sequence of keys: each key stands where it was first
  set. \<open>seen\<close> holds the keys already in the map.
\<close>

fun insertion_order :: "'a list \<Rightarrow> 'a list \<Rightarrow> 'a list" where
  "insertion_order seen [] = seen"
| "insertion_order seen (k # ks) =
     insertion_order (if k \<in> set seen then seen else seen @ [k]) ks"

subsection \<open>\<open>#resolveCustomerIdentity\<close>\<close>

text \<open>
  The four strategy methods are not in the source. The input holds, for each, what its promise
  settles to: \<open>None\<close> when it rejects.
\<close>

record strategy_outcomes =
  byEmailFingerprint :: "resolution option"
  byDeviceGraph :: "resolution option"
  byBehavioralPatterns :: "resolution option"
  byTransactionalHistory :: "resolution option"

definition resolutionPromises :: "strategy_outcomes \<Rightarrow> resolution option list" where
  "resolutionPromises outcomes =
     [byEmailFingerprint outcomes, byDeviceGraph outcomes,
      byBehavioralPatterns outcomes, byTransactionalHistory outcomes]"

text \<open>\<open>Promise.all\<close> rejects as soon as one of the promises rejects.\<close>

fun promise_all :: "'a option list \<Rightarrow> failure + 'a list" where
  "promise_all [] = Inr []"
| "promise_all (None # ps) = Inl StrategyFailure"
| "promise_all (Some x # ps) =
     (case promise_all ps of Inl e \<Rightarrow> Inl e | Inr xs \<Rightarrow> Inr (x # xs))"

record consensus_result =
  masterCustomerId :: string
  identityGraph :: identity_graph
  resolutionConfidence :: number
  identityAttributes :: "(string \<times> string) list"

text \<open>The loops of lines 46 to 58: one edge from the initial identifier for every claim.\<close>

fun claim_edges ::
  "identity \<Rightarrow> (identity \<times> metadata) list \<Rightarrow> identity_graph \<Rightarrow> failure + identity_graph" where
  "claim_edges initialIdentifier [] g = Inr g"
| "claim_edges initialIdentifier (claim # rest) g =
     (case addIdentityEdge g initialIdentifier (fst claim)
             \<lparr>edgeRelationship = relationship (snd claim),
              edgeConfidence = confidence (snd claim),
              temporalValidity = temporalScope (snd claim)\<rparr> of
        Inl e \<Rightarrow> Inl e
      | Inr g' \<Rightarrow> claim_edges initialIdentifier rest g')"

fun resolution_edges ::
  "identity \<Rightarrow> resolution list \<Rightarrow> identity_graph \<Rightarrow> failure + identity_graph" where
  "resolution_edges initialIdentifier [] g = Inr g"
| "resolution_edges initialIdentifier (r # rest) g =
     (case claim_edges initialIdentifier (identities r) g of
        Inl e \<Rightarrow> Inl e
      | Inr g' \<Rightarrow> resolution_edges initialIdentifier rest g')"

definition resolveCustomerIdentity ::
  "helpers \<Rightarrow> strategy_outcomes \<Rightarrow> identity \<Rightarrow> failure + consensus_result" where
  "resolveCustomerIdentity h outcomes initialIdentifier =
     (case promise_all (resolutionPromises outcomes) of
        Inl e \<Rightarrow> Inl e
      | Inr resolutionResults \<Rightarrow>
          (case establishConsensusIdentity h resolutionResults of
             Inl e \<Rightarrow> Inl e
           | Inr consensusIdentity \<Rightarrow>
               (case resolution_edges initialIdentifier resolutionResults
                       (addIdentityNode new_graph initialIdentifier
                          \<lparr>nodeSource = ''initial'', givenConfidence = Fin 1\<rparr>) of
                  Inl e \<Rightarrow> Inl e
                | Inr g \<Rightarrow>
                    Inr \<lparr>masterCustomerId = generateMasterCustomerId h consensusIdentity,
                         identityGraph = g,
                         resolutionConfidence = calculateOverallResolutionConfidence h g,
                         identityAttributes = extractIdentityAttributes h consensusIdentity\<rparr>)))"

subsection \<open>\<open>#resolveProfileConflicts\<close>\<close>

text \<open>
  The values, reliabilities and confidences of the profile are only handed on by the source,
  which computes nothing with them; they are held as exact numbers.
\<close>

datatype val = Text string | Number real

record candidate =
  candidateValue :: val
  candidateSource :: string
  observedAt :: nat
  sourceReliability :: real

record conflict =
  conflictDimension :: string
  conflictAttribute :: string
  candidates :: "candidate list"
  description :: string

type_synonym profile = "(string \<times> (string \<times> candidate list) list) list"

type_synonym detected = "(string \<times> conflict list) list"

record resolved =
  resolvedValue :: val
  explanation :: string
  resolvedConfidence :: real

record log_entry =
  entryDimension :: string
  entryConflict :: string
  entryStrategy :: string
  entryResolution :: string
  entryConfidence :: real

text \<open>
  \<open>resolvedProfile\<close> is a plain object keyed by dimension. The model keeps the keys in the
  order of their first assignment; nothing below reads that order.
\<close>

type_synonym resolved_profile = "(string \<times> val) list"

record conflict_resolution =
  resolvedProfile :: resolved_profile
  resolutionLog :: "log_entry list"
  remainingConflicts :: "conflict list"

datatype resolver =
  TemporalRecencyResolver
  | SourceReliabilityResolver
  | StatisticalConsensusResolver
  | ContextualPlausibilityResolver

text \<open>
  The object of lines 119 to 124. Any other key reads \<open>undefined\<close> or a member inherited
  from \<open>Object.prototype\<close>, neither of which has a method \<open>resolve\<close>.
\<close>

definition resolutionStrategies :: "string \<Rightarrow> resolver option" where
  "resolutionStrategies key =
     (if key = ''temporal_recency'' then Some TemporalRecencyResolver
      else if key = ''source_reliability'' then Some SourceReliabilityResolver
      else if key = ''statistical_consensus'' then Some StatisticalConsensusResolver
      else if key = ''contextual_plausibility'' then Some ContextualPlausibilityResolver
      else None)"

text \<open>
  The object \<open>conflictDetector\<close> of the missing class \<open>ProfileConflictDetectionEngine\<close>, with
  the two methods that the source calls.
\<close>

record detector =
  detectConflicts :: "profile \<Rightarrow> detected"
  detectRemainingConflicts :: "resolved_profile \<Rightarrow> conflict list"

text \<open>
  Lines 131 and 132. \<open>select\<close> stands for the missing method \<open>#selectResolutionStrategy\<close>
  and \<open>resolve\<close> for the \<open>resolve\<close> method of the four missing resolver classes; either may
  throw. Calling \<open>resolve\<close> where there is no such method is a \<open>TypeError\<close>. No exception is
  caught.
\<close>

definition resolution_of ::
  "(conflict \<Rightarrow> failure + string) \<Rightarrow> (resolver \<Rightarrow> conflict \<Rightarrow> failure + resolved) \<Rightarrow>
   conflict \<Rightarrow> failure + string \<times> resolved" where
  "resolution_of select resolve c =
     (case select c of
        Inl e \<Rightarrow> Inl e
      | Inr resolutionStrategy \<Rightarrow>
          (case resolutionStrategies resolutionStrategy of
             None \<Rightarrow> Inl TypeError
           | Some r \<Rightarrow>
               (case resolve r c of
                  Inl e \<Rightarrow> Inl e
                | Inr resolution \<Rightarrow> Inr (resolutionStrategy, resolution))))"

text \<open>The body of the inner loop (lines 131 to 141).\<close>

definition resolve_conflict ::
  "(conflict \<Rightarrow> failure + string) \<Rightarrow> (resolver \<Rightarrow> conflict \<Rightarrow> failure + resolved) \<Rightarrow>
   string \<Rightarrow> conflict \<Rightarrow> resolved_profile \<times> log_entry list \<Rightarrow>
   failure + resolved_profile \<times> log_entry list" where
  "resolve_conflict select resolve dimension c state =
     (case resolution_of select resolve c of
        Inl e \<Rightarrow> Inl e
      | Inr sr \<Rightarrow>
          Inr (map_set (fst state) dimension (resolvedValue (snd sr)),
               snd state @
                 [\<lparr>entryDimension = dimension,
                   entryConflict = description c,
                   entryStrategy = fst sr,
                   entryResolution = explanation (snd sr),
                   entryConfidence = resolvedConfidence (snd sr)\<rparr>]))"

fun conflicts_loop ::
  "(conflict \<Rightarrow> failure + string) \<Rightarrow> (resolver \<Rightarrow> conflict \<Rightarrow> failure + resolved) \<Rightarrow>
   string \<Rightarrow> conflict list \<Rightarrow> resolved_profile \<times> log_entry list \<Rightarrow>
   failure + resolved_profile \<times> log_entry list" where
  "conflicts_loop select resolve dimension [] state = Inr state"
| "conflicts_loop select resolve dimension (c # rest) state =
     (case resolve_conflict select resolve dimension c state of
        Inl e \<Rightarrow> Inl e
      | Inr state' \<Rightarrow> conflicts_loop select resolve dimension rest state')"

fun dimensions_loop ::
  "(conflict \<Rightarrow> failure + string) \<Rightarrow> (resolver \<Rightarrow> conflict \<Rightarrow> failure + resolved) \<Rightarrow>
   detected \<Rightarrow> resolved_profile \<times> log_entry list \<Rightarrow>
   failure + resolved_profile \<times> log_entry list" where
  "dimensions_loop select resolve [] state = Inr state"
| "dimensions_loop select resolve (dc # rest) state =
     (case conflicts_loop select resolve (fst dc) (snd dc) state of
        Inl e \<Rightarrow> Inl e
      | Inr state' \<Rightarrow> dimensions_loop select resolve rest state')"

text \<open>
  Modelled from the spec: the class \<open>ProfileConflictDetectionEngine\<close> is not in the source.
  The equality of two values that suits their type: exact for text, within a tolerance
  band for numbers, whose width the specification leaves open.
\<close>

fun same_value :: "real \<Rightarrow> val \<Rightarrow> val \<Rightarrow> bool" where
  "same_value tol (Number x) (Number y) = (\<bar>x - y\<bar> \<le> tol)"
| "same_value tol (Text s) (Text t) = (s = t)"
| "same_value tol v w = False"

text \<open>
  Modelled from the spec: the class \<open>ProfileConflictDetectionEngine\<close> is not in the source.
  The distinct values of the candidates of an attribute, taken in their order: the value of
  a candidate counts when it is the same as none of the values counted before it.
\<close>

fun distinct_from :: "real \<Rightarrow> val list \<Rightarrow> candidate list \<Rightarrow> val list" where
  "distinct_from tol seen [] = seen"
| "distinct_from tol seen (c # cs) =
     distinct_from tol
       (if list_ex (same_value tol (candidateValue c)) seen then seen
        else seen @ [candidateValue c]) cs"

definition distinct_values :: "real \<Rightarrow> candidate list \<Rightarrow> val list" where
  "distinct_values tol cs = distinct_from tol [] cs"

text \<open>
  Modelled from the spec: the class \<open>ProfileConflictDetectionEngine\<close> is not in the source.
  An attribute is a conflict when its distinct values number more than one; the conflict
  lists every candidate. \<open>describe\<close> gives the text of \<open>conflict.description\<close>, about which
  the specification is silent.
\<close>

definition detect_attribute ::
  "(string \<Rightarrow> string \<Rightarrow> string) \<Rightarrow> real \<Rightarrow> string \<Rightarrow> string \<times> candidate list \<Rightarrow> conflict list" where
  "detect_attribute describe tol d ac =
     (if 1 < length (distinct_values tol (snd ac))
      then [\<lparr>conflictDimension = d, conflictAttribute = fst ac, candidates = snd ac,
             description = describe d (fst ac)\<rparr>]
      else [])"

text \<open>
  Modelled from the spec: the class \<open>ProfileConflictDetectionEngine\<close> is not in the source.
  The profile is scanned in its own order, dimension by dimension and attribute by
  attribute; every dimension has an entry, empty when it has no conflict.
\<close>

definition spec_detectConflicts ::
  "(string \<Rightarrow> string \<Rightarrow> string) \<Rightarrow> real \<Rightarrow> profile \<Rightarrow> detected" where
  "spec_detectConflicts describe tol profileDimensions =
     map (\<lambda>da. (fst da, concat (map (detect_attribute describe tol (fst da)) (snd da))))
       profileDimensions"

text \<open>
  Lines 126 to 149, from the conflicts the detector has returned. \<open>remaining\<close> is the method
  \<open>detectRemainingConflicts\<close> of the detector.
\<close>

definition resolve_detected ::
  "(resolved_profile \<Rightarrow> conflict list) \<Rightarrow> (conflict \<Rightarrow> failure + string) \<Rightarrow>
   (resolver \<Rightarrow> conflict \<Rightarrow> failure + resolved) \<Rightarrow> detected \<Rightarrow> failure + conflict_resolution" where
  "resolve_detected remaining select resolve detectedConflicts =
     (case dimensions_loop select resolve detectedConflicts ([], []) of
        Inl e \<Rightarrow> Inl e
      | Inr state \<Rightarrow>
          Inr \<lparr>resolvedProfile = fst state,
               resolutionLog = snd state,
               remainingConflicts = remaining (fst state)\<rparr>)"

text \<open>Lines 115 to 150.\<close>

definition resolveProfileConflicts ::
  "detector \<Rightarrow> (conflict \<Rightarrow> failure + string) \<Rightarrow>
   (resolver \<Rightarrow> conflict \<Rightarrow> failure + resolved) \<Rightarrow> profile \<Rightarrow> failure + conflict_resolution" where
  "resolveProfileConflicts conflictDetector select resolve profileDimensions =
     resolve_detected (detectRemainingConflicts conflictDetector) select resolve
       (detectConflicts conflictDetector profileDimensions)"

text \<open>The detected conflicts as the loops meet them, each with the key of its dimension.\<close>

definition conflicts_in_order :: "detected \<Rightarrow> (string \<times> conflict) list" where
  "conflicts_in_order detectedConflicts =
     concat (map (\<lambda>dc. map (Pair (fst dc)) (snd dc)) detectedConflicts)"

text \<open>The two loops as one pass over the conflicts in that order.\<close>

fun pass ::
  "(conflict \<Rightarrow> failure + string) \<Rightarrow> (resolver \<Rightarrow> conflict \<Rightarrow> failure + resolved) \<Rightarrow>
   (string \<times> conflict) list \<Rightarrow> resolved_profile \<times> log_entry list \<Rightarrow>
   failure + resolved_profile \<times> log_entry list" where
  "pass select resolve [] state = Inr state"
| "pass select resolve (dc # rest) state =
     (case resolve_conflict select resolve (fst dc) (snd dc) state of
        Inl e \<Rightarrow> Inl e
      | Inr state' \<Rightarrow> pass select resolve rest state')"

subsection \<open>Observations and inputs of the concrete runs\<close>

text \<open>The claim set of strategy \<open>i\<close> with one more claim, put at position \<open>j\<close>.\<close>

definition add_claim :: "resolution list \<Rightarrow> nat \<Rightarrow> nat \<Rightarrow> identity \<times> metadata \<Rightarrow> resolution list" where
  "add_claim rs i j c =
     rs[i := (rs ! i)
          \<lparr>identities := take j (identities (rs ! i)) @ c # drop j (identities (rs ! i))\<rparr>]"

text \<open>A claim whose confidence is written as a decimal literal.\<close>

definition claim :: "identity \<Rightarrow> string \<Rightarrow> rat \<Rightarrow> identity \<times> metadata" where
  "claim k s c =
     (k, \<lparr>source = s, confidence = dbl c, relationship = ''same_customer'',
          temporalScope = (0, 0)\<rparr>)"

text \<open>
  Stand-ins for what the class takes from outside: uniform weights, the default of the
  specification, constant answers for the other private methods, and the insertion sort.
\<close>

definition uniform_helpers :: helpers where
  "uniform_helpers =
     \<lparr>calculateResolutionWeights = (\<lambda>rs. replicate (length rs) (Fin 1)),
      generateMasterCustomerId = (\<lambda>k. k),
      calculateOverallResolutionConfidence = (\<lambda>g. Fin 1),
      extractIdentityAttributes = (\<lambda>k. []),
      arraySort = array_sort\<rparr>"

text \<open>The same with weights that do not depend on the results.\<close>

definition with_weights :: "rat list \<Rightarrow> helpers" where
  "with_weights ws = uniform_helpers\<lparr>calculateResolutionWeights := (\<lambda>rs. map dbl ws)\<rparr>"

text \<open>Weights that depend on the results: a strategy with several claims weighs a half.\<close>

definition split_weights :: helpers where
  "split_weights =
     uniform_helpers
       \<lparr>calculateResolutionWeights :=
          map (\<lambda>r. if length (identities r) \<le> 1 then dbl 1 else dbl (1 / 2))\<rparr>"

text \<open>Scenario 1 of the specification.\<close>

definition scenario1_weights :: "rat list" where
  "scenario1_weights = [1, 1 / 2, 1]"

definition scenario1 :: "resolution list" where
  "scenario1 =
     [\<lparr>identities = [claim ''A'' ''strategy1'' (9 / 10)]\<rparr>,
      \<lparr>identities = [claim ''A'' ''strategy2'' (3 / 10)]\<rparr>,
      \<lparr>identities = [claim ''B'' ''strategy3'' (8 / 10)]\<rparr>]"

text \<open>A tie: B is claimed once at 0.8, A twice at 0.4, every weight is 1.\<close>

definition tie_weights :: "rat list" where
  "tie_weights = [1, 1, 1]"

definition tie_claims :: "resolution list" where
  "tie_claims =
     [\<lparr>identities = [claim ''B'' ''strategy1'' (8 / 10)]\<rparr>,
      \<lparr>identities = [claim ''A'' ''strategy2'' (4 / 10)]\<rparr>,
      \<lparr>identities = [claim ''A'' ''strategy3'' (4 / 10)]\<rparr>]"

text \<open>The same tie behind a claim for C at 0.1.\<close>

definition late_tie_claims :: "resolution list" where
  "late_tie_claims =
     [\<lparr>identities = [claim ''C'' ''strategy1'' (1 / 10)]\<rparr>,
      \<lparr>identities = [claim ''B'' ''strategy2'' (8 / 10)]\<rparr>,
      \<lparr>identities = [claim ''A'' ''strategy3'' (4 / 10), claim ''A'' ''strategy3'' (4 / 10)]\<rparr>]"

text \<open>
  A tie that only rounding makes: A is claimed at 0.1 and at 0.2, B at
  0.30000000000000004, every weight is 1.
\<close>

definition rounding_tie_claims :: "resolution list" where
  "rounding_tie_claims =
     [\<lparr>identities = [claim ''A'' ''strategy1'' (1 / 10)]\<rparr>,
      \<lparr>identities = [claim ''A'' ''strategy2'' (2 / 10)]\<rparr>,
      \<lparr>identities = [claim ''B'' ''strategy3'' (30000000000000004 / 100000000000000000)]\<rparr>]"

text \<open>One strategy with one claim for A at 0.9, and the claim at 0.1 that is added to it.\<close>

definition lone_claim :: "resolution list" where
  "lone_claim = [\<lparr>identities = [claim ''A'' ''strategy1'' (9 / 10)]\<rparr>]"

definition no_claims :: resolution where
  "no_claims = \<lparr>identities = []\<rparr>"

definition all_empty :: strategy_outcomes where
  "all_empty =
     \<lparr>byEmailFingerprint = Some no_claims, byDeviceGraph = Some no_claims,
      byBehavioralPatterns = Some no_claims, byTransactionalHistory = Some no_claims\<rparr>"

definition no_evidence :: strategy_outcomes where
  "no_evidence =
     \<lparr>byEmailFingerprint = None, byDeviceGraph = Some no_claims,
      byBehavioralPatterns = Some no_claims, byTransactionalHistory = Some no_claims\<rparr>"

definition email_fails :: strategy_outcomes where
  "email_fails =
     \<lparr>byEmailFingerprint = None,
      byDeviceGraph = Some \<lparr>identities = [claim ''c1'' ''device'' (9 / 10)]\<rparr>,
      byBehavioralPatterns = Some no_claims, byTransactionalHistory = Some no_claims\<rparr>"

definition email_empty :: strategy_outcomes where
  "email_empty =
     \<lparr>byEmailFingerprint = Some no_claims,
      byDeviceGraph = Some \<lparr>identities = [claim ''c1'' ''device'' (9 / 10)]\<rparr>,
      byBehavioralPatterns = Some no_claims, byTransactionalHistory = Some no_claims\<rparr>"

definition other_identity :: strategy_outcomes where
  "other_identity =
     \<lparr>byEmailFingerprint = Some \<lparr>identities = [claim ''c2'' ''email'' (9 / 10)]\<rparr>,
      byDeviceGraph = Some no_claims,
      byBehavioralPatterns = Some no_claims, byTransactionalHistory = Some no_claims\<rparr>"

text \<open>
  Modelled from the spec: the resolver classes are not in the source. The choice of the
  source-reliability strategy of section 4.4: the candidate of the source with the highest
  declared reliability, the earlier one on a tie.
\<close>

fun most_reliable :: "candidate list \<Rightarrow> candidate option" where
  "most_reliable [] = None"
| "most_reliable (x # xs) =
     (case most_reliable xs of
        None \<Rightarrow> Some x
      | Some y \<Rightarrow> if sourceReliability x < sourceReliability y then Some y else Some x)"

text \<open>
  Modelled from the spec: the resolver classes are not in the source. Source reliability
  returns the value of the chosen candidate with its reliability as confidence; the other
  three resolvers are left out and fail with \<open>StrategyMismatchError\<close>. Used in the concrete
  runs only.
\<close>

definition reliability_resolve :: "resolver \<Rightarrow> conflict \<Rightarrow> failure + resolved" where
  "reliability_resolve r c =
     (case r of
        SourceReliabilityResolver \<Rightarrow>
          (case most_reliable (candidates c) of
             None \<Rightarrow> Inl StrategyMismatchError
           | Some x \<Rightarrow>
               Inr \<lparr>resolvedValue = candidateValue x, explanation = candidateSource x,
                    resolvedConfidence = sourceReliability x\<rparr>)
      | _ \<Rightarrow> Inl StrategyMismatchError)"

text \<open>A stand-in for \<open>#selectResolutionStrategy\<close> and one for the text of a description.\<close>

definition always_reliability :: "conflict \<Rightarrow> failure + string" where
  "always_reliability c = Inr ''source_reliability''"

definition dotted :: "string \<Rightarrow> string \<Rightarrow> string" where
  "dotted d a = d @ ''.'' @ a"

definition cand :: "val \<Rightarrow> string \<Rightarrow> nat \<Rightarrow> real \<Rightarrow> candidate" where
  "cand v s t r =
     \<lparr>candidateValue = v, candidateSource = s, observedAt = t, sourceReliability = r\<rparr>"

text \<open>A stand-in that selects statistical consensus, which the resolver above does not offer.\<close>

definition always_consensus :: "conflict \<Rightarrow> failure + string" where
  "always_consensus c = Inr ''statistical_consensus''"

text \<open>A stand-in that selects a key which the object of lines 119 to 124 does not have.\<close>

definition unknown_strategy :: "conflict \<Rightarrow> failure + string" where
  "unknown_strategy c = Inr ''majority_vote''"

text \<open>
  A detector for the concrete runs: detection as the specification has it, with a tolerance
  of zero, and a second method that reports nothing, which is what the specification expects
  on a profile whose conflicts were all resolved. The properties of the loops are proved of
  any detector.
\<close>

definition sample_detector :: detector where
  "sample_detector =
     \<lparr>detectConflicts = spec_detectConflicts dotted 0,
      detectRemainingConflicts = (\<lambda>resolvedProfile. [])\<rparr>"

text \<open>
  A profile with its dimensions in the order of lines 91, 92 and 95: the city of scenario 4,
  the income of scenario 5, two more conflicts and a dimension without conflict.
\<close>

definition city_candidates :: "candidate list" where
  "city_candidates = [cand (Text ''NYC'') ''srcA'' 1 (1 / 2), cand (Text ''NYC'') ''srcB'' 2 (1 / 2)]"

definition demographic_attributes :: "(string \<times> candidate list) list" where
  "demographic_attributes =
     [(''city'', city_candidates),
      (''income'', [cand (Number 5000) ''srcA'' 5 (9 / 10), cand (Number 7000) ''srcB'' 9 (4 / 10)]),
      (''segment'', [cand (Text ''retail'') ''srcA'' 3 (3 / 10), cand (Text ''premium'') ''srcB'' 4 (8 / 10)])]"

definition sample_profile :: profile where
  "sample_profile =
     [(''demographic'', demographic_attributes),
      (''behavioral'',
         [(''tier'', [cand (Text ''gold'') ''srcA'' 1 (7 / 10), cand (Text ''silver'') ''srcB'' 2 (6 / 10)])]),
      (''preference'',
         [(''channel'', [cand (Text ''email'') ''srcA'' 1 (1 / 2), cand (Text ''email'') ''srcB'' 2 (1 / 2)])])]"

definition income_conflict :: conflict where
  "income_conflict =
     \<lparr>conflictDimension = ''demographic'', conflictAttribute = ''income'',
      candidates = [cand (Number 5000) ''srcA'' 5 (9 / 10), cand (Number 7000) ''srcB'' 9 (4 / 10)],
      description = ''demographic.income''\<rparr>"

definition segment_conflict :: conflict where
  "segment_conflict =
     \<lparr>conflictDimension = ''demographic'', conflictAttribute = ''segment'',
      candidates = [cand (Text ''retail'') ''srcA'' 3 (3 / 10), cand (Text ''premium'') ''srcB'' 4 (8 / 10)],
      description = ''demographic.segment''\<rparr>"

definition tier_conflict :: conflict where
  "tier_conflict =
     \<lparr>conflictDimension = ''behavioral'', conflictAttribute = ''tier'',
      candidates = [cand (Text ''gold'') ''srcA'' 1 (7 / 10), cand (Text ''silver'') ''srcB'' 2 (6 / 10)],
      description = ''behavioral.tier''\<rparr>"

text \<open>What the detector reports on that profile, and what the resolution of it returns.\<close>

definition sample_detected :: detected where
  "sample_detected =
     [(''demographic'', [income_conflict, segment_conflict]),
      (''behavioral'', [tier_conflict]),
      (''preference'', [])]"

definition sample_resolution :: conflict_resolution where
  "sample_resolution =
     \<lparr>resolvedProfile = [(''demographic'', Text ''premium''), (''behavioral'', Text ''gold'')],
      resolutionLog =
        [\<lparr>entryDimension = ''demographic'', entryConflict = ''demographic.income'',
          entryStrategy = ''source_reliability'', entryResolution = ''srcA'',
          entryConfidence = 9 / 10\<rparr>,
         \<lparr>entryDimension = ''demographic'', entryConflict = ''demographic.segment'',
          entryStrategy = ''source_reliability'', entryResolution = ''srcB'',
          entryConfidence = 8 / 10\<rparr>,
         \<lparr>entryDimension = ''behavioral'', entryConflict = ''behavioral.tier'',
          entryStrategy = ''source_reliability'', entryResolution = ''srcA'',
          entryConfidence = 7 / 10\<rparr>],
      remainingConflicts = []\<rparr>"

section \<open>Properties\<close>

subsection \<open>Rounding to a double\<close>

lemma two_powi_le: "a \<le> b \<Longrightarrow> (2::rat) powi a \<le> 2 powi b"
  by (rule power_int_increasing) simp_all

lemma two_powi_less: "a < b \<Longrightarrow> (2::rat) powi a < 2 powi b"
  by (rule power_int_strict_increasing) simp_all

lemma two_powi_pos: "0 < (2::rat) powi a"
  by simp

lemma two_powi_Suc: "(2::rat) powi (a + 1) = 2 * 2 powi a"
  by (simp add: power_int_add)

lemma two_powi_sum: "(2::rat) powi (a + b) = 2 powi a * 2 powi b"
  by (simp add: power_int_add)

lemma binade_bounds:
  assumes "0 < x"
  shows "2 powi binade x \<le> x" and "x < 2 powi (binade x + 1)"
proof -
  obtain p q where pq: "quotient_of x = (p, q)"
    by (cases "quotient_of x")
  then have q: "0 < q" and x: "x = of_int p / of_int q"
    by (simp_all add: quotient_of_denom_pos quotient_of_div)
  with assms have p: "0 < p"
    by (simp add: zero_less_divide_iff)
  let ?d = "bitlen p - bitlen q"
  from bitlen_bounds [OF p] bitlen_bounds [OF q]
  have bp: "2 ^ nat (bitlen p - 1) \<le> p" "p < 2 ^ nat (bitlen p)"
    and bq: "2 ^ nat (bitlen q - 1) \<le> q" "q < 2 ^ nat (bitlen q)"
    by simp_all
  have lp: "1 \<le> bitlen p" and lq: "1 \<le> bitlen q"
    using p q bitlen_eq_zero_iff [of p] bitlen_eq_zero_iff [of q] bitlen_nonneg [of p]
      bitlen_nonneg [of q] by linarith+
  have rp: "(2::rat) powi (bitlen p - 1) \<le> of_int p" "of_int p < (2::rat) powi bitlen p"
  proof -
    have "(of_int (2 ^ nat (bitlen p - 1)) :: rat) \<le> of_int p"
      using bp(1) by (simp only: of_int_le_iff)
    then show "(2::rat) powi (bitlen p - 1) \<le> of_int p"
      using lp by (simp add: power_int_nonneg_exp)
    have "(of_int p :: rat) < of_int (2 ^ nat (bitlen p))"
      using bp(2) by (simp only: of_int_less_iff)
    then show "of_int p < (2::rat) powi bitlen p"
      using lp by (simp add: power_int_nonneg_exp)
  qed
  have rq: "(2::rat) powi (bitlen q - 1) \<le> of_int q" "of_int q < (2::rat) powi bitlen q"
  proof -
    have "(of_int (2 ^ nat (bitlen q - 1)) :: rat) \<le> of_int q"
      using bq(1) by (simp only: of_int_le_iff)
    then show "(2::rat) powi (bitlen q - 1) \<le> of_int q"
      using lq by (simp add: power_int_nonneg_exp)
    have "(of_int q :: rat) < of_int (2 ^ nat (bitlen q))"
      using bq(2) by (simp only: of_int_less_iff)
    then show "of_int q < (2::rat) powi bitlen q"
      using lq by (simp add: power_int_nonneg_exp)
  qed
  have qpos: "(0::rat) < of_int q" using q by simp
  have low: "2 powi (?d - 1) \<le> x"
  proof -
    have "(2::rat) powi (?d - 1) * of_int q \<le> 2 powi (?d - 1) * 2 powi bitlen q"
      using rq(2) by (simp add: less_imp_le)
    also have "\<dots> = 2 powi (bitlen p - 1)"
      by (simp add: power_int_add [symmetric])
    also have "\<dots> \<le> of_int p" by (rule rp(1))
    finally show ?thesis
      using qpos by (simp add: x pos_le_divide_eq)
  qed
  have high: "x < 2 powi (?d + 1)"
  proof -
    have "(of_int p :: rat) < 2 powi bitlen p" by (rule rp(2))
    also have "\<dots> = 2 powi (?d + 1) * 2 powi (bitlen q - 1)"
      by (simp add: power_int_add [symmetric])
    also have "\<dots> \<le> 2 powi (?d + 1) * of_int q"
      using rq(1) by simp
    finally show ?thesis
      using qpos by (simp add: x pos_divide_less_eq)
  qed
  have b: "binade x = (if 2 powi ?d \<le> x then ?d else ?d - 1)"
    by (simp add: binade_def pq)
  show "2 powi binade x \<le> x"
    using low by (simp add: b)
  show "x < 2 powi (binade x + 1)"
    using high by (auto simp: b)
qed

lemma binade_unique:
  assumes "0 < x" and "2 powi e \<le> x" and "x < 2 powi (e + 1)"
  shows "binade x = e"
proof (rule ccontr)
  assume ne: "binade x \<noteq> e"
  note b = binade_bounds [OF assms(1)]
  show False
  proof (cases "binade x < e")
    case True
    then have "(2::rat) powi (binade x + 1) \<le> 2 powi e"
      by (intro two_powi_le) simp
    with b(2) assms(2) show False by simp
  next
    case False
    with ne have "(2::rat) powi (e + 1) \<le> 2 powi binade x"
      by (intro two_powi_le) simp
    with b(1) assms(3) show False by simp
  qed
qed

lemma binade_mono:
  assumes "0 < x" and "x \<le> y"
  shows "binade x \<le> binade y"
proof (rule ccontr)
  assume "\<not> binade x \<le> binade y"
  then have "(2::rat) powi (binade y + 1) \<le> 2 powi binade x"
    by (intro two_powi_le) simp
  with binade_bounds(1) [OF assms(1)] binade_bounds(2) [of y] assms show False
    by simp
qed

lemma half_even_cases: "half_even z = \<lfloor>z\<rfloor> \<or> half_even z = \<lfloor>z\<rfloor> + 1"
  by (simp add: half_even_def Let_def)

lemma half_even_of_int [simp]: "half_even (of_int n) = n"
  by (simp add: half_even_def)

lemma half_even_mono:
  assumes "z \<le> w"
  shows "half_even z \<le> half_even w"
proof (cases "\<lfloor>z\<rfloor> = \<lfloor>w\<rfloor>")
  case True
  with assms show ?thesis
    by (auto simp: half_even_def Let_def)
next
  case False
  with assms have "\<lfloor>z\<rfloor> + 1 \<le> \<lfloor>w\<rfloor>"
    using floor_mono [OF assms] by simp
  with half_even_cases [of z] half_even_cases [of w] show ?thesis
    by auto
qed

lemma half_even_ge: "of_int n \<le> z \<Longrightarrow> n \<le> half_even z"
  using half_even_mono [of "of_int n" z] by simp

lemma half_even_le: "z \<le> of_int n \<Longrightarrow> half_even z \<le> n"
  using half_even_mono [of z "of_int n"] by simp

lemma floor_minus_nonint:
  assumes "z \<noteq> of_int \<lfloor>z\<rfloor>"
  shows "\<lfloor>- z\<rfloor> = - \<lfloor>z :: rat\<rfloor> - 1"
proof -
  have "\<lceil>z\<rceil> = \<lfloor>z\<rfloor> + 1"
    using assms by (simp add: ceiling_altdef)
  then show ?thesis
    by (simp add: ceiling_def)
qed

lemma half_even_minus: "half_even (- z) = - half_even z"
proof (cases "z = of_int \<lfloor>z\<rfloor>")
  case True
  then obtain n where "z = of_int n" by metis
  then show ?thesis
    using half_even_of_int [of "- n"] by simp
next
  case False
  note f = floor_minus_nonint [OF False]
  define r where "r = z - of_int \<lfloor>z\<rfloor>"
  have r': "- z - of_int (- \<lfloor>z\<rfloor> - 1) = 1 - r"
    by (simp add: r_def)
  have e: "even (- \<lfloor>z\<rfloor> - 1) \<longleftrightarrow> odd \<lfloor>z\<rfloor>"
    by simp
  show ?thesis
    unfolding half_even_def Let_def f r' e r_def [symmetric]
    by (cases "r < 1 / 2"; cases "1 / 2 < r") (simp_all add: not_less)
qed

lemma ulp_expo: "ulp x = 2 powi (expo x - 52)"
  by (simp add: ulp_def)

lemma ulp_pos: "0 < ulp x"
  by (simp add: ulp_def)

lemma ulp_minus: "ulp (- x) = ulp x"
  by (simp add: ulp_def expo_def)

lemma nearest_minus: "nearest (- x) = - nearest x"
  by (simp add: nearest_def ulp_minus half_even_minus)

lemma nearest_nonneg:
  assumes "0 \<le> x"
  shows "0 \<le> nearest x"
proof -
  have "of_int 0 \<le> x / ulp x"
    using assms ulp_pos [of x] by simp
  then have "0 \<le> half_even (x / ulp x)"
    by (rule half_even_ge)
  then show ?thesis
    using ulp_pos [of x] by (simp add: nearest_def)
qed

lemma expo_ge: "- 1022 \<le> expo x"
  by (simp add: expo_def)

lemma expo_mono:
  assumes "0 < x" and "x \<le> y"
  shows "expo x \<le> expo y"
  using binade_mono [OF assms] assms by (simp add: expo_def)

lemma below_next_binade:
  assumes "0 < x"
  shows "x < 2 powi (expo x + 1)"
proof -
  have "x < 2 powi (binade x + 1)"
    by (rule binade_bounds(2) [OF assms])
  also have "\<dots> \<le> 2 powi (expo x + 1)"
    using assms by (intro two_powi_le) (simp add: expo_def)
  finally show ?thesis .
qed

lemma powi_split: "c = a + b \<Longrightarrow> (2::rat) powi c = 2 powi a * 2 powi b"
  by (simp add: power_int_add)

lemma scaled_powi: "(2::rat) powi a / 2 powi (b - 52) = 2 powi (a - b) * 2 ^ 52"
proof -
  have "(2::rat) powi a = 2 powi (a - b + 52) * 2 powi (b - 52)"
    by (rule powi_split) simp
  also have "(2::rat) powi (a - b + 52) = 2 powi (a - b) * 2 powi 52"
    by (rule powi_split) simp
  finally show ?thesis
    by simp
qed

lemma nearest_le_next_binade:
  assumes "0 < x"
  shows "nearest x \<le> 2 powi (expo x + 1)"
proof -
  have "x / ulp x \<le> 2 powi (expo x + 1) / ulp x"
    using below_next_binade [OF assms] ulp_pos [of x] by (simp add: divide_right_mono)
  also have "\<dots> = of_int (2 ^ 53)"
    by (simp add: ulp_expo scaled_powi)
  finally have "half_even (x / ulp x) \<le> 2 ^ 53"
    by (rule half_even_le)
  then have "(of_int (half_even (x / ulp x)) :: rat) \<le> of_int (2 ^ 53)"
    by (simp only: of_int_le_iff)
  then have "of_int (half_even (x / ulp x)) * ulp x \<le> of_int (2 ^ 53) * ulp x"
    using ulp_pos [of x] by (simp only: mult_le_cancel_right_pos)
  also have "\<dots> = 2 powi (expo x + 1)"
  proof -
    have "(2::rat) powi (expo x + 1) = 2 powi 53 * 2 powi (expo x - 52)"
      by (rule powi_split) simp
    then show ?thesis by (simp add: ulp_expo)
  qed
  finally show ?thesis
    using assms by (simp add: nearest_def)
qed

lemma nearest_ge_binade:
  assumes "0 < x" and "- 1022 \<le> binade x"
  shows "2 powi expo x \<le> nearest x"
proof -
  have e: "expo x = binade x"
    using assms by (simp add: expo_def)
  have "2 powi expo x \<le> x"
    using binade_bounds(1) [OF assms(1)] by (simp add: e)
  then have "2 powi expo x / ulp x \<le> x / ulp x"
    using ulp_pos [of x] by (simp add: divide_right_mono)
  moreover have "2 powi expo x / ulp x = of_int (2 ^ 52)"
    by (simp add: ulp_expo scaled_powi)
  ultimately have "2 ^ 52 \<le> half_even (x / ulp x)"
    using half_even_ge by metis
  then have "(of_int (2 ^ 52) :: rat) \<le> of_int (half_even (x / ulp x))"
    by (simp only: of_int_le_iff)
  then have "of_int (2 ^ 52) * ulp x \<le> of_int (half_even (x / ulp x)) * ulp x"
    using ulp_pos [of x] by (simp only: mult_le_cancel_right_pos)
  moreover have "of_int (2 ^ 52) * ulp x = 2 powi expo x"
  proof -
    have "(2::rat) powi expo x = 2 powi 52 * 2 powi (expo x - 52)"
      by (rule powi_split) simp
    then show ?thesis by (simp add: ulp_expo)
  qed
  ultimately show ?thesis
    using assms by (simp add: nearest_def)
qed

lemma nearest_mono_pos:
  assumes "0 < x" and "x \<le> y"
  shows "nearest x \<le> nearest y"
proof (cases "expo x = expo y")
  case True
  then have u: "ulp x = ulp y"
    by (simp add: ulp_expo)
  have "x / ulp y \<le> y / ulp y"
    using assms ulp_pos [of y] by (simp add: divide_right_mono)
  then have "half_even (x / ulp y) \<le> half_even (y / ulp y)"
    by (rule half_even_mono)
  then have "(of_int (half_even (x / ulp y)) :: rat) \<le> of_int (half_even (y / ulp y))"
    by (simp only: of_int_le_iff)
  then show ?thesis
    using assms ulp_pos [of y] by (simp add: nearest_def u)
next
  case False
  with expo_mono [OF assms] have lt: "expo x < expo y"
    by simp
  from assms have y: "0 < y" by simp
  have "- 1022 < expo y"
    using lt expo_ge [of x] by simp
  then have "- 1022 \<le> binade y"
    using y by (simp add: expo_def max_def split: if_splits)
  from nearest_ge_binade [OF y this] have "2 powi expo y \<le> nearest y" .
  moreover have "nearest x \<le> 2 powi (expo x + 1)"
    by (rule nearest_le_next_binade [OF assms(1)])
  moreover have "(2::rat) powi (expo x + 1) \<le> 2 powi expo y"
    using lt by (intro two_powi_le) simp
  ultimately show ?thesis
    by simp
qed

lemma nearest_mono:
  assumes "x \<le> y"
  shows "nearest x \<le> nearest y"
proof -
  consider "0 < x" | "x \<le> 0" "0 \<le> y" | "y < 0"
    using assms by linarith
  then show ?thesis
  proof cases
    case 1
    then show ?thesis by (rule nearest_mono_pos [OF _ assms])
  next
    case 2
    then have "nearest x \<le> 0" "0 \<le> nearest y"
      using nearest_nonneg [of "- x"] nearest_nonneg [of y] by (simp_all add: nearest_minus)
    then show ?thesis by simp
  next
    case 3
    with assms have "0 < - y" "- y \<le> - x" by simp_all
    from nearest_mono_pos [OF this] show ?thesis
      by (simp add: nearest_minus)
  qed
qed

lemma nearest_grid: "\<exists>k::int. nearest x = of_int k * 2 powi (- 1074)"
proof (cases "x = 0")
  case True
  then have "nearest x = of_int 0 * 2 powi (- 1074)"
    by (simp add: nearest_def)
  then show ?thesis by blast
next
  case False
  let ?n = "nat (expo x + 1022)"
  have "(2::rat) powi (expo x - 52) = 2 powi (int ?n) * 2 powi (- 1074)"
    using expo_ge [of x] by (intro powi_split) simp
  then have "ulp x = of_int (2 ^ ?n) * 2 powi (- 1074)"
    by (simp only: ulp_expo power_int_of_nat of_int_power of_int_numeral)
  then have "nearest x = of_int (half_even (x / ulp x) * 2 ^ ?n) * 2 powi (- 1074)"
    using False by (simp only: nearest_def if_False of_int_mult mult.assoc)
  then show ?thesis by blast
qed

lemma nearest_of_multiple:
  assumes "0 < y" and "y = of_int m * ulp y"
  shows "nearest y = y"
proof -
  have "y / ulp y = of_int m"
    using assms(2) ulp_pos [of y] by (metis nonzero_mult_div_cancel_right less_irrefl)
  then show ?thesis
    using assms by (simp add: nearest_def)
qed

lemma nearest_idem_pos:
  assumes "0 < x"
  shows "nearest (nearest x) = nearest x"
proof -
  define h where "h = half_even (x / ulp x)"
  define y where "y = nearest x"
  have y: "y = of_int h * 2 powi (expo x - 52)"
    using assms by (simp add: y_def h_def nearest_def ulp_expo)
  have y0: "0 \<le> y"
    using assms nearest_nonneg [of x] by (simp add: y_def)
  show ?thesis
  proof (cases "y = 0")
    case True
    show ?thesis
      unfolding y_def [symmetric] True by (simp add: nearest_def)
  next
    case False
    with y0 have ypos: "0 < y" by simp
    have top: "y \<le> 2 powi (expo x + 1)"
      using nearest_le_next_binade [OF assms] by (simp add: y_def)
    show ?thesis
    proof (cases "y = 2 powi (expo x + 1)")
      case True
      have "binade y = expo x + 1"
        by (rule binade_unique [OF ypos]) (simp_all add: True two_powi_less)
      then have e: "expo y = expo x + 1"
        using ypos expo_ge [of x] by (simp add: expo_def)
      have "y = of_int (2 ^ 52) * ulp y"
      proof -
        have u: "ulp y = 2 powi (expo x + 1 - 52)"
          by (simp only: ulp_expo e)
        have "(2::rat) powi (expo x + 1) = 2 powi 52 * 2 powi (expo x + 1 - 52)"
          by (rule powi_split) simp
        with True have "y = 2 powi 52 * 2 powi (expo x + 1 - 52)"
          by simp
        then show ?thesis
          unfolding u by simp
      qed
      from nearest_of_multiple [OF ypos this] show ?thesis
        by (simp add: y_def)
    next
      case False
      with top have lt: "y < 2 powi (expo x + 1)" by simp
      have "binade y \<le> expo x"
      proof (rule ccontr)
        assume "\<not> binade y \<le> expo x"
        then have "(2::rat) powi (expo x + 1) \<le> 2 powi binade y"
          by (intro two_powi_le) simp
        with binade_bounds(1) [OF ypos] lt show False by simp
      qed
      then have le: "expo y \<le> expo x"
        using ypos expo_ge [of x] by (simp add: expo_def)
      define n where "n = nat (expo x - expo y)"
      have n: "int n = expo x - expo y"
        using le by (simp add: n_def)
      have split: "(2::rat) powi (expo x - 52) = 2 powi (int n) * 2 powi (expo y - 52)"
        by (rule powi_split) (simp add: n)
      have "of_int (h * 2 ^ n) * ulp y = of_int h * (2 powi (int n) * 2 powi (expo y - 52))"
        by (simp add: ulp_expo)
      also have "\<dots> = of_int h * 2 powi (expo x - 52)"
        by (simp only: split)
      also have "\<dots> = y"
        by (simp only: y)
      finally have "y = of_int (h * 2 ^ n) * ulp y"
        by (rule sym)
      from nearest_of_multiple [OF ypos this] show ?thesis
        by (simp add: y_def)
    qed
  qed
qed

lemma nearest_idem: "nearest (nearest x) = nearest x"
proof -
  consider "0 < x" | "x = 0" | "0 < - x" by linarith
  then show ?thesis
  proof cases
    case 1
    then show ?thesis by (rule nearest_idem_pos)
  next
    case 2
    then show ?thesis by (simp add: nearest_def)
  next
    case 3
    from nearest_idem_pos [OF this] show ?thesis
      by (simp add: nearest_minus)
  qed
qed

lemma nearest_0: "nearest 0 = 0"
  by (simp add: nearest_def)

lemma nearest_delta: "nearest (2 powi (- 1074)) = 2 powi (- 1074)"
proof -
  define d where "d = (2::rat) powi (- 1074)"
  have pos: "0 < d"
    unfolding d_def by (rule two_powi_pos)
  have "d < 2 powi (- 1074 + 1)"
    unfolding d_def by (rule two_powi_less) simp
  with pos have b: "binade d = - 1074"
    by (intro binade_unique) (simp_all add: d_def)
  have e: "expo d = - 1022"
    using pos by (simp add: expo_def b)
  have "(- 1022 - 52 :: int) = - 1074"
    by simp
  then have "ulp d = 2 powi (- 1074)"
    by (simp only: ulp_def e)
  then have u: "ulp d = d"
    by (simp only: d_def)
  have "d = of_int 1 * ulp d"
    by (simp add: u)
  from nearest_of_multiple [OF pos this] show ?thesis
    by (simp only: d_def)
qed

lemma nearest_pos_of_grid:
  assumes "x = of_int k * 2 powi (- 1074)" and "0 < x"
  shows "0 < nearest x"
proof -
  define d where "d = (2::rat) powi (- 1074)"
  have dpos: "0 < d"
    unfolding d_def by (rule two_powi_pos)
  have x: "x = of_int k * d"
    using assms(1) by (simp only: d_def)
  with assms(2) dpos have "0 < (of_int k :: rat)"
    by (simp add: zero_less_mult_iff)
  then have "(1::rat) \<le> of_int k"
    by simp
  then have "1 * d \<le> of_int k * d"
    using dpos by (intro mult_right_mono) simp_all
  then have "d \<le> x"
    by (simp add: x)
  then have "nearest d \<le> nearest x"
    by (rule nearest_mono)
  moreover have "nearest d = d"
    using nearest_delta by (simp only: d_def)
  ultimately show ?thesis
    using dpos by simp
qed

lemma nearest_neg_of_grid:
  assumes "x = of_int k * 2 powi (- 1074)" and "x < 0"
  shows "nearest x < 0"
proof -
  have "- x = of_int (- k) * 2 powi (- 1074)"
    using assms(1) by (simp only: of_int_minus mult_minus_left)
  from nearest_pos_of_grid [OF this] assms(2) have "0 < nearest (- x)"
    by simp
  then show ?thesis
    by (simp add: nearest_minus)
qed

lemma nearest_nonpos:
  assumes "x \<le> 0"
  shows "nearest x \<le> 0"
  using nearest_mono [OF assms] by (simp add: nearest_0)

lemma grid_diff:
  assumes "nearest a = a" and "nearest b = b"
  shows "\<exists>k::int. b - a = of_int k * 2 powi (- 1074)"
proof -
  define d where "d = (2::rat) powi (- 1074)"
  from nearest_grid [of a] nearest_grid [of b] assms obtain ka kb :: int
    where "a = of_int ka * d" and "b = of_int kb * d"
    unfolding d_def by metis
  then have "b - a = of_int (kb - ka) * d"
    by (simp add: algebra_simps)
  then show ?thesis
    unfolding d_def by blast
qed

lemma nearest_diff_sign:
  assumes "nearest a = a" and "nearest b = b"
  shows "0 < nearest (b - a) \<longleftrightarrow> a < b"
    and "nearest (b - a) < 0 \<longleftrightarrow> b < a"
    and "nearest (b - a) = 0 \<longleftrightarrow> a = b"
proof -
  from grid_diff [OF assms] obtain k :: int where k: "b - a = of_int k * 2 powi (- 1074)"
    by blast
  have p: "0 < nearest (b - a)" if "a < b"
    using nearest_pos_of_grid [OF k] that by simp
  have n: "nearest (b - a) < 0" if "b < a"
    using nearest_neg_of_grid [OF k] that by simp
  have z: "nearest (b - a) = 0" if "a = b"
    using that by (simp add: nearest_0)
  show "0 < nearest (b - a) \<longleftrightarrow> a < b"
    using p n z by (metis less_irrefl less_linear less_asym)
  show "nearest (b - a) < 0 \<longleftrightarrow> b < a"
    using p n z by (metis less_irrefl less_linear less_asym)
  show "nearest (b - a) = 0 \<longleftrightarrow> a = b"
    using p n z by (metis less_irrefl less_linear)
qed

lemma fl_not_NaN [simp]: "fl x \<noteq> NaN"
  by (simp add: fl_def Let_def)

lemma positive_fl: "positive (fl x) \<longleftrightarrow> 0 < nearest x"
proof -
  have "(0::rat) < 2 ^ 1024"
    by simp
  then show ?thesis
    unfolding fl_def Let_def by (auto simp del: zero_less_power simp add: not_le) 
qed

lemma negative_fl: "negative (fl x) \<longleftrightarrow> nearest x < 0"
proof -
  have "(0::rat) < 2 ^ 1024"
    by simp
  then show ?thesis
    unfolding fl_def Let_def by (auto simp add: not_le)
qed

lemma fl_eq_0: "fl x = Fin 0 \<longleftrightarrow> nearest x = 0"
  unfolding fl_def Let_def by auto

lemma is_double_fl [simp]: "is_double (fl x)"
proof (cases "fl x")
  case (Fin y)
  then have y: "y = nearest x" and b: "\<not> 2 ^ 1024 \<le> y" "\<not> y \<le> - (2 ^ 1024)"
    by (auto simp: fl_def Let_def split: if_splits)
  have "nearest y = y"
    by (simp add: y nearest_idem)
  with b have "fl y = Fin y"
    by (simp add: fl_def Let_def)
  with Fin show ?thesis
    by simp
qed simp_all

lemma is_double_nearest: "is_double (Fin a) \<Longrightarrow> nearest a = a"
  by (auto simp: fl_def Let_def split: if_splits)

lemma is_double_js_add [simp]: "is_double (js_add x y)"
  by (cases x; cases y) simp_all

lemma is_double_js_mul [simp]: "is_double (js_mul x y)"
  by (cases x; cases y) simp_all

lemma is_double_dbl [simp]: "is_double (dbl x)"
  by (simp add: dbl_def)

lemma is_double_0 [simp]: "is_double (Fin 0)"
  by (simp add: fl_eq_0 nearest_0)

lemma num_le_refl: "x \<noteq> NaN \<Longrightarrow> num_le x x"
  by (cases x) simp_all

lemma num_le_trans: "num_le x y \<Longrightarrow> num_le y z \<Longrightarrow> num_le x z"
  by (cases x; cases y; cases z) simp_all

lemma num_le_total: "x \<noteq> NaN \<Longrightarrow> y \<noteq> NaN \<Longrightarrow> num_le x y \<or> num_le y x"
  by (cases x; cases y) auto

lemma num_le_not_NaN: "num_le x y \<Longrightarrow> x \<noteq> NaN \<and> y \<noteq> NaN"
  by (cases x; cases y) simp_all

lemma sub_sign:
  assumes "is_double x" and "is_double y" and "x \<noteq> NaN" and "y \<noteq> NaN"
  shows "negative (js_sub y x) \<longleftrightarrow> num_less y x"
    and "positive (js_sub y x) \<longleftrightarrow> num_less x y"
    and "js_sub y x = Fin 0 \<or> js_sub y x = NaN \<longleftrightarrow> num_le x y \<and> num_le y x"
proof -
  have fin: "negative (js_sub (Fin b) (Fin a)) \<longleftrightarrow> b < a"
    "positive (js_sub (Fin b) (Fin a)) \<longleftrightarrow> a < b"
    "js_sub (Fin b) (Fin a) = Fin 0 \<longleftrightarrow> a = b"
    if "is_double (Fin a)" and "is_double (Fin b)" for a b
    using nearest_diff_sign [OF is_double_nearest [OF that(1)] is_double_nearest [OF that(2)]]
    by (simp_all add: js_sub_def positive_fl negative_fl fl_eq_0)
  show "negative (js_sub y x) \<longleftrightarrow> num_less y x"
    using assms fin by (cases x; cases y) (auto simp: js_sub_def num_less_def)
  show "positive (js_sub y x) \<longleftrightarrow> num_less x y"
    using assms fin by (cases x; cases y) (auto simp: js_sub_def num_less_def)
  show "js_sub y x = Fin 0 \<or> js_sub y x = NaN \<longleftrightarrow> num_le x y \<and> num_le y x"
    using assms fin by (cases x; cases y) (auto simp: js_sub_def)
qed

subsection \<open>The sort\<close>

lemma number_trichotomy: "v \<noteq> NaN \<Longrightarrow> negative v \<or> v = Fin 0 \<or> positive v"
  by (cases v) auto

lemma not_negative_and_positive: "negative v \<Longrightarrow> \<not> positive v"
  by (cases v) auto

lemma consistent_refl: "consistent c S \<Longrightarrow> a \<in> S \<Longrightarrow> c a a = Fin 0"
  unfolding consistent_def by blast

lemma consistent_not_NaN: "consistent c S \<Longrightarrow> a \<in> S \<Longrightarrow> b \<in> S \<Longrightarrow> c a b \<noteq> NaN"
  unfolding consistent_def by blast

lemma consistent_sym: "consistent c S \<Longrightarrow> a \<in> S \<Longrightarrow> b \<in> S \<Longrightarrow> c a b = Fin 0 \<Longrightarrow> c b a = Fin 0"
  unfolding consistent_def by blast

lemma consistent_trans_eq:
  assumes "consistent c S" and "a \<in> S" and "b \<in> S" and "x \<in> S"
    and "c a b = Fin 0" and "c b x = Fin 0"
  shows "c a x = Fin 0"
proof -
  from assms(1) have "\<forall>a\<in>S. \<forall>b\<in>S. \<forall>x\<in>S. c a b = Fin 0 \<and> c b x = Fin 0 \<longrightarrow> c a x = Fin 0"
    unfolding consistent_def by (elim conjE)
  with assms(2-) show ?thesis
    by blast
qed

lemma consistent_trans_neg:
  assumes "consistent c S" and "a \<in> S" and "b \<in> S" and "x \<in> S"
    and "negative (c a b)" and "negative (c b x)"
  shows "negative (c a x)"
proof -
  from assms(1) have "\<forall>a\<in>S. \<forall>b\<in>S. \<forall>x\<in>S.
      negative (c a b) \<and> negative (c b x) \<longrightarrow> negative (c a x)"
    unfolding consistent_def by (elim conjE)
  with assms(2-) show ?thesis
    by blast
qed

lemma consistent_trans_pos:
  assumes "consistent c S" and "a \<in> S" and "b \<in> S" and "x \<in> S"
    and "positive (c a b)" and "positive (c b x)"
  shows "positive (c a x)"
proof -
  from assms(1) have "\<forall>a\<in>S. \<forall>b\<in>S. \<forall>x\<in>S.
      positive (c a b) \<and> positive (c b x) \<longrightarrow> positive (c a x)"
    unfolding consistent_def by (elim conjE)
  with assms(2-) show ?thesis
    by blast
qed

lemma consistentI:
  assumes "\<And>a b. a \<in> S \<Longrightarrow> b \<in> S \<Longrightarrow> c a b \<noteq> NaN"
    and "\<And>a. a \<in> S \<Longrightarrow> c a a = Fin 0"
    and "\<And>a b. a \<in> S \<Longrightarrow> b \<in> S \<Longrightarrow> c a b = Fin 0 \<Longrightarrow> c b a = Fin 0"
    and "\<And>a b x. a \<in> S \<Longrightarrow> b \<in> S \<Longrightarrow> x \<in> S \<Longrightarrow> c a b = Fin 0 \<Longrightarrow> c b x = Fin 0
           \<Longrightarrow> c a x = Fin 0"
    and "\<And>a b x. a \<in> S \<Longrightarrow> b \<in> S \<Longrightarrow> x \<in> S \<Longrightarrow> negative (c a b) \<Longrightarrow> negative (c b x)
           \<Longrightarrow> negative (c a x)"
    and "\<And>a b x. a \<in> S \<Longrightarrow> b \<in> S \<Longrightarrow> x \<in> S \<Longrightarrow> positive (c a b) \<Longrightarrow> positive (c b x)
           \<Longrightarrow> positive (c a x)"
  shows "consistent c S"
  unfolding consistent_def
proof (intro conjI ballI impI)
  fix a b
  assume "a \<in> S" "b \<in> S"
  then show "c a b \<noteq> NaN"
    by (rule assms(1))
next
  fix a
  assume "a \<in> S"
  then show "c a a = Fin 0"
    by (rule assms(2))
next
  fix a b
  assume "a \<in> S" "b \<in> S" "c a b = Fin 0"
  then show "c b a = Fin 0"
    by (rule assms(3))
next
  fix a b x
  assume "a \<in> S" "b \<in> S" "x \<in> S" and "c a b = Fin 0 \<and> c b x = Fin 0"
  then show "c a x = Fin 0"
    using assms(4) by blast
next
  fix a b x
  assume "a \<in> S" "b \<in> S" "x \<in> S" and "negative (c a b) \<and> negative (c b x)"
  then show "negative (c a x)"
    using assms(5) by blast
next
  fix a b x
  assume "a \<in> S" "b \<in> S" "x \<in> S" and "positive (c a b) \<and> positive (c b x)"
  then show "positive (c a x)"
    using assms(6) by blast
qed

lemma consistent_subset:
  assumes "consistent c S" and "T \<subseteq> S"
  shows "consistent c T"
proof (rule consistentI)
  fix a b x
  assume "a \<in> T" "b \<in> T" "x \<in> T"
  with assms(2) have m: "a \<in> S" "b \<in> S" "x \<in> S"
    by auto
  show "c a b \<noteq> NaN"
    by (rule consistent_not_NaN [OF assms(1) m(1,2)])
  show "c a a = Fin 0"
    by (rule consistent_refl [OF assms(1) m(1)])
  show "c a b = Fin 0 \<Longrightarrow> c b a = Fin 0"
    by (rule consistent_sym [OF assms(1) m(1,2)])
  show "c a b = Fin 0 \<Longrightarrow> c b x = Fin 0 \<Longrightarrow> c a x = Fin 0"
    by (rule consistent_trans_eq [OF assms(1) m])
  show "negative (c a b) \<Longrightarrow> negative (c b x) \<Longrightarrow> negative (c a x)"
    by (rule consistent_trans_neg [OF assms(1) m])
  show "positive (c a b) \<Longrightarrow> positive (c b x) \<Longrightarrow> positive (c a x)"
    by (rule consistent_trans_pos [OF assms(1) m])
qed

lemma consistent_antisym:
  assumes "consistent c S" and "a \<in> S" and "b \<in> S"
  shows "negative (c a b) \<longleftrightarrow> positive (c b a)"
proof
  assume n: "negative (c a b)"
  have "\<not> negative (c b a)"
  proof
    assume "negative (c b a)"
    from consistent_trans_neg [OF assms(1) assms(2) assms(3) assms(2) n this]
    show False
      using consistent_refl [OF assms(1,2)] by simp
  qed
  moreover have "c b a \<noteq> Fin 0"
  proof
    assume "c b a = Fin 0"
    from consistent_sym [OF assms(1) assms(3) assms(2) this] n show False
      by simp
  qed
  ultimately show "positive (c b a)"
    using number_trichotomy [OF consistent_not_NaN [OF assms(1) assms(3) assms(2)]] by blast
next
  assume p: "positive (c b a)"
  have "\<not> positive (c a b)"
  proof
    assume "positive (c a b)"
    from consistent_trans_pos [OF assms(1) assms(2) assms(3) assms(2) this p]
    show False
      using consistent_refl [OF assms(1,2)] by simp
  qed
  moreover have "c a b \<noteq> Fin 0"
  proof
    assume "c a b = Fin 0"
    from consistent_sym [OF assms(1) assms(2) assms(3) this] p show False
      by simp
  qed
  ultimately show "negative (c a b)"
    using number_trichotomy [OF consistent_not_NaN [OF assms(1) assms(2) assms(3)]] by blast
qed

lemma consistent_le_trans:
  assumes c: "consistent c S" and a: "a \<in> S" and b: "b \<in> S" and x: "x \<in> S"
    and ab: "\<not> positive (c a b)" and bx: "\<not> positive (c b x)"
  shows "\<not> positive (c a x)"
proof
  assume p: "positive (c a x)"
  then have xa: "negative (c x a)"
    using consistent_antisym [OF c x a] by simp
  from ab consider "negative (c a b)" | "c a b = Fin 0"
    using number_trichotomy [OF consistent_not_NaN [OF c a b]] by blast
  then show False
  proof cases
    case 1
    from consistent_trans_neg [OF c x a b xa 1] have "negative (c x b)" .
    then have "positive (c b x)"
      using consistent_antisym [OF c x b] by simp
    with bx show False by simp
  next
    case 2
    from bx consider "negative (c b x)" | "c b x = Fin 0"
      using number_trichotomy [OF consistent_not_NaN [OF c b x]] by blast
    then show False
    proof cases
      case 1
      from consistent_trans_neg [OF c b x a 1 xa] have "negative (c b a)" .
      moreover have "c b a = Fin 0"
        by (rule consistent_sym [OF c a b 2])
      ultimately show False by simp
    next
      case 2
      from consistent_trans_eq [OF c a b x \<open>c a b = Fin 0\<close> 2] p show False
        by simp
    qed
  qed
qed

lemma consistent_equal_not_positive:
  assumes c: "consistent c S" and e: "e \<in> S" and a: "a \<in> S" and b: "b \<in> S"
    and ea: "c e a = Fin 0" and p: "positive (c a b)"
  shows "c e b \<noteq> Fin 0"
proof
  assume eb: "c e b = Fin 0"
  have "c a e = Fin 0"
    by (rule consistent_sym [OF c e a ea])
  from consistent_trans_eq [OF c a e b this eb] p show False
    by simp
qed

lemma positive_sort_compare: "positive (sort_compare cmp a b) = positive (cmp a b)"
  by (simp add: sort_compare_def Let_def)

lemma negative_sort_compare: "negative (sort_compare cmp a b) = negative (cmp a b)"
  by (simp add: sort_compare_def Let_def)

lemma mset_place: "mset (place cmp a bs) = add_mset a (mset bs)"
  by (induction bs) auto

lemma mset_array_sort: "mset (array_sort cmp xs) = mset xs"
  by (induction xs) (auto simp: array_sort_def mset_place)

lemma set_place: "set (place cmp a bs) = insert a (set bs)"
  using mset_place [of cmp a bs, THEN arg_cong, of set_mset] by simp

lemma set_array_sort: "set (array_sort cmp xs) = set xs"
  using mset_array_sort [of cmp xs, THEN arg_cong, of set_mset] by simp

lemma array_sort_Cons: "array_sort cmp (x # xs) = place cmp x (array_sort cmp xs)"
  by (simp add: array_sort_def)

lemma sorted_place:
  assumes c: "consistent (sort_compare cmp) S" and "insert a (set bs) \<subseteq> S"
    and "sorted_wrt (\<lambda>x y. \<not> negative (sort_compare cmp y x)) bs"
  shows "sorted_wrt (\<lambda>x y. \<not> negative (sort_compare cmp y x)) (place cmp a bs)"
  using assms(2,3)
proof (induction bs)
  case Nil
  then show ?case by simp
next
  case (Cons b bs)
  let ?c = "sort_compare cmp"
  from Cons.prems have a: "a \<in> S" and b: "b \<in> S" and bs: "set bs \<subseteq> S"
    by auto
  show ?case
  proof (cases "positive (cmp a b)")
    case True
    then have "\<not> negative (?c a b)"
      using not_negative_and_positive [of "?c a b"] by (auto simp: positive_sort_compare)
    moreover have "sorted_wrt (\<lambda>x y. \<not> negative (?c y x)) (place cmp a bs)"
      using Cons.IH Cons.prems by simp
    ultimately show ?thesis
      using True Cons.prems(2) by (simp add: set_place)
  next
    case False
    then have ab: "\<not> positive (?c a b)"
      by (simp add: positive_sort_compare)
    then have "\<not> negative (?c b a)"
      using consistent_antisym [OF c b a] by simp
    moreover have "\<not> negative (?c y a)" if "y \<in> set bs" for y
    proof -
      from that bs have y: "y \<in> S" by auto
      from Cons.prems(2) that have "\<not> negative (?c y b)" by simp
      then have "\<not> positive (?c b y)"
        using consistent_antisym [OF c y b] by simp
      from consistent_le_trans [OF c a b y ab this] show ?thesis
        using consistent_antisym [OF c y a] by simp
    qed
    ultimately show ?thesis
      using False Cons.prems(2) by simp
  qed
qed

lemma stable_place:
  assumes c: "consistent (sort_compare cmp) S" and "insert a (set bs) \<subseteq> S" and e: "e \<in> S"
  shows "filter (\<lambda>b. sort_compare cmp e b = Fin 0) (place cmp a bs)
           = filter (\<lambda>b. sort_compare cmp e b = Fin 0) (a # bs)"
  using assms(2)
proof (induction bs)
  case Nil
  then show ?case by simp
next
  case (Cons b bs)
  let ?c = "sort_compare cmp"
  from Cons.prems have a: "a \<in> S" and b: "b \<in> S"
    by auto
  have "?c e b \<noteq> Fin 0" if "positive (cmp a b)" and "?c e a = Fin 0"
    using consistent_equal_not_positive [OF c e a b that(2)] that(1)
    by (simp add: positive_sort_compare)
  with Cons show ?case
    by auto
qed

lemma ecma_sort_array_sort: "ecma_sort array_sort"
  unfolding ecma_sort_def
proof (intro allI conjI impI ballI)
  fix cmp :: "'a \<Rightarrow> 'a \<Rightarrow> number" and xs :: "'a list"
  show "mset (array_sort cmp xs) = mset xs"
    by (rule mset_array_sort)
next
  fix cmp :: "'a \<Rightarrow> 'a \<Rightarrow> number" and xs :: "'a list"
  assume c: "consistent (sort_compare cmp) (set xs)"
  have "set ys \<subseteq> set xs \<Longrightarrow>
      sorted_wrt (\<lambda>a b. \<not> negative (sort_compare cmp b a)) (array_sort cmp ys)" for ys
  proof (induction ys)
    case Nil
    then show ?case by (simp add: array_sort_def)
  next
    case (Cons y ys)
    then have "insert y (set (array_sort cmp ys)) \<subseteq> set xs"
      by (simp add: set_array_sort)
    from sorted_place [OF c this] Cons show ?case
      by (simp add: array_sort_Cons)
  qed
  then show "sorted_wrt (\<lambda>a b. \<not> negative (sort_compare cmp b a)) (array_sort cmp xs)"
    by simp
next
  fix cmp :: "'a \<Rightarrow> 'a \<Rightarrow> number" and xs :: "'a list" and a
  assume c: "consistent (sort_compare cmp) (set xs)" and a: "a \<in> set xs"
  have "set ys \<subseteq> set xs \<Longrightarrow>
      filter (\<lambda>b. sort_compare cmp a b = Fin 0) (array_sort cmp ys)
        = filter (\<lambda>b. sort_compare cmp a b = Fin 0) ys" for ys
  proof (induction ys)
    case Nil
    then show ?case by (simp add: array_sort_def)
  next
    case (Cons y ys)
    then have "insert y (set (array_sort cmp ys)) \<subseteq> set xs"
      by (simp add: set_array_sort)
    from stable_place [OF c this a] Cons show ?case
      by (simp add: array_sort_Cons)
  qed
  then show "filter (\<lambda>b. sort_compare cmp a b = Fin 0) (array_sort cmp xs)
      = filter (\<lambda>b. sort_compare cmp a b = Fin 0) xs"
    by simp
qed

lemma ecma_sort_mset: "ecma_sort srt \<Longrightarrow> mset (srt cmp xs) = mset xs"
  by (simp add: ecma_sort_def)

lemma ecma_sort_Nil: "ecma_sort srt \<Longrightarrow> srt cmp [] = []"
  using ecma_sort_mset [of srt cmp "[]"] by simp

lemma ecma_sort_set: "ecma_sort srt \<Longrightarrow> set (srt cmp xs) = set xs"
  using ecma_sort_mset [of srt cmp xs, THEN arg_cong, of set_mset] by simp

lemma ecma_sort_hd:
  assumes s: "ecma_sort srt" and c: "consistent (sort_compare cmp) (set xs)" and ne: "xs \<noteq> []"
  shows "\<exists>p m q. xs = p @ m # q \<and> srt cmp xs \<noteq> [] \<and> hd (srt cmp xs) = m
           \<and> (\<forall>b\<in>set p. negative (sort_compare cmp m b))
           \<and> (\<forall>b\<in>set xs. \<not> negative (sort_compare cmp b m))"
proof -
  let ?c = "sort_compare cmp"
  let ?ys = "srt cmp xs"
  have set_ys: "set ?ys = set xs"
    by (rule ecma_sort_set [OF s])
  with ne have ys_ne: "?ys \<noteq> []"
    by auto
  then obtain m t where ys: "?ys = m # t"
    by (cases ?ys) auto
  then have m: "m \<in> set xs"
    using set_ys by auto
  from s c have sorted: "sorted_wrt (\<lambda>a b. \<not> negative (?c b a)) ?ys"
    and stable: "filter (\<lambda>b. ?c m b = Fin 0) ?ys = filter (\<lambda>b. ?c m b = Fin 0) xs"
    using m unfolding ecma_sort_def by blast+
  have mm: "?c m m = Fin 0"
    by (rule consistent_refl [OF c m])
  have top: "\<not> negative (?c b m)" if "b \<in> set xs" for b
  proof -
    from that set_ys ys have "b = m \<or> b \<in> set t"
      by auto
    then show ?thesis
      using sorted mm by (auto simp: ys)
  qed
  from stable have "filter (\<lambda>b. ?c m b = Fin 0) xs = m # filter (\<lambda>b. ?c m b = Fin 0) t"
    by (simp add: ys mm)
  then obtain p q where xs: "xs = p @ m # q" and p: "\<forall>b\<in>set p. ?c m b \<noteq> Fin 0"
    unfolding filter_eq_Cons_iff by blast
  have "negative (?c m b)" if "b \<in> set p" for b
  proof -
    from that xs have b: "b \<in> set xs" by simp
    from top [OF b] have "\<not> positive (?c m b)"
      using consistent_antisym [OF c b m] by simp
    moreover have "?c m b \<noteq> Fin 0"
      using p that by simp
    ultimately show ?thesis
      using number_trichotomy [OF consistent_not_NaN [OF c m b]] by blast
  qed
  with xs ys top show ?thesis
    by (intro exI [of _ p] exI [of _ m] exI [of _ q]) simp
qed

subsection \<open>The vote map\<close>

lemma map_of_map_set: "map_of (map_set m k v) = (map_of m)(k \<mapsto> v)"
  by (induction m) (auto simp: fun_eq_iff)

lemma keys_map_set:
  "map fst (map_set m k v) = (if k \<in> fst ` set m then map fst m else map fst m @ [k])"
  by (induction m) force+

lemma insertion_order_append:
  "insertion_order seen (as @ bs) = insertion_order (insertion_order seen as) bs"
  by (induction as arbitrary: seen) auto

lemma set_insertion_order: "set (insertion_order seen ks) = set seen \<union> set ks"
  by (induction ks arbitrary: seen) auto

lemma distinct_insertion_order: "distinct seen \<Longrightarrow> distinct (insertion_order seen ks)"
  by (induction ks arbitrary: seen) auto

lemma insertion_order_prefix: "\<exists>rest. insertion_order seen ks = seen @ rest"
  by (induction ks arbitrary: seen) (auto, metis append.assoc)

lemma prefix_before_key:
  "s @ rest = ks1 @ k # ks2 \<Longrightarrow> k \<notin> set s \<Longrightarrow> set s \<subseteq> set ks1"
proof (induction s arbitrary: ks1)
  case Nil
  then show ?case by simp
next
  case (Cons a s)
  then show ?case
    by (cases ks1) auto
qed

lemma insertion_order_split:
  assumes "insertion_order seen cs = ks1 @ k # ks2" and "k \<notin> set seen"
  shows "\<exists>pre post. cs = pre @ k # post \<and> k \<notin> set pre \<and> set pre \<subseteq> set ks1"
  using assms
proof (induction cs arbitrary: seen)
  case Nil
  then show ?case by auto
next
  case (Cons c cs)
  show ?case
  proof (cases "c = k")
    case True
    then have "c # cs = [] @ k # cs" by simp
    then show ?thesis
      by (metis empty_iff empty_subsetI list.set(1))
  next
    case False
    let ?seen = "if c \<in> set seen then seen else seen @ [c]"
    have run: "insertion_order ?seen cs = ks1 @ k # ks2"
      using Cons.prems(1) by simp
    have fresh: "k \<notin> set ?seen"
      using Cons.prems(2) False by auto
    from Cons.IH [OF run fresh] obtain pre post where
      cs: "cs = pre @ k # post" and pre: "k \<notin> set pre" "set pre \<subseteq> set ks1"
      by blast
    obtain rest where "?seen @ rest = ks1 @ k # ks2"
      using insertion_order_prefix [of ?seen cs] run by metis
    with fresh have "set ?seen \<subseteq> set ks1"
      using prefix_before_key by metis
    then have "c \<in> set ks1"
      by (auto split: if_splits)
    with cs pre False have "c # cs = (c # pre) @ k # post \<and> k \<notin> set (c # pre)
        \<and> set (c # pre) \<subseteq> set ks1"
      by auto
    then show ?thesis
      by blast
  qed
qed

lemma claimed_keys_Nil: "claimed_keys rs = [] \<longleftrightarrow> (\<forall>r\<in>set rs. identities r = [])"
  by (auto simp: claimed_keys_def)

lemma set_map_set: "set (map_set m k v) \<subseteq> insert (k, v) (set m)"
  by (induction m) (auto split: if_splits)

lemma vote_of_cast_vote:
  "vote_of (cast_vote w c m) k =
     (if fst c = k then js_add (vote_of m k) (js_mul w (confidence (snd c))) else vote_of m k)"
  by (simp add: vote_of_def cast_vote_def map_get_def map_of_map_set Let_def split: option.splits)

lemma keys_cast_vote:
  "map fst (cast_vote w c m) = (if fst c \<in> fst ` set m then map fst m else map fst m @ [fst c])"
  by (simp add: cast_vote_def Let_def keys_map_set)

lemma doubles_cast_vote:
  assumes "\<forall>e\<in>set m. is_double (totalWeight (snd e))"
  shows "\<forall>e\<in>set (cast_vote w c m). is_double (totalWeight (snd e))"
proof
  fix e
  assume "e \<in> set (cast_vote w c m)"
  then obtain v where "e \<in> insert (fst c, v) (set m)"
    and "totalWeight v = js_add (vote_of m (fst c)) (js_mul w (confidence (snd c)))"
    using set_map_set [of m "fst c"]
    by (fastforce simp: cast_vote_def Let_def vote_of_def split: option.splits)
  with assms show "is_double (totalWeight (snd e))"
    by auto
qed

lemma vote_of_inner_loop:
  "vote_of (inner_loop w cl m) k =
     foldl (\<lambda>v wc. js_add v (js_mul (fst wc) (snd wc))) (vote_of m k)
       (map (\<lambda>c. (w, confidence (snd c))) (filter (\<lambda>c. fst c = k) cl))"
  by (induction cl arbitrary: m) (simp_all add: vote_of_cast_vote)

lemma keys_inner_loop:
  "map fst (inner_loop w cl m) = insertion_order (map fst m) (map fst cl)"
  by (induction cl arbitrary: m) (auto simp: keys_cast_vote)

lemma doubles_inner_loop:
  assumes "\<forall>e\<in>set m. is_double (totalWeight (snd e))"
  shows "\<forall>e\<in>set (inner_loop w cl m). is_double (totalWeight (snd e))"
  using assms
proof (induction cl arbitrary: m)
  case Nil
  then show ?case by simp
next
  case (Cons c cl)
  from Cons.IH [OF doubles_cast_vote [OF Cons.prems]] show ?case
    by simp
qed

lemma outer_loop_result:
  "(\<forall>k. vote_of (outer_loop ws rs i m) k =
        foldl (\<lambda>v wc. js_add v (js_mul (fst wc) (snd wc))) (vote_of m k)
          (concat (map (\<lambda>j. map (\<lambda>c. (weight_at ws j, confidence (snd c)))
                              (filter (\<lambda>c. fst c = k) (identities (rs ! j))))
                    [i..<length rs])))
   \<and> map fst (outer_loop ws rs i m) = insertion_order (map fst m) (claimed_keys (drop i rs))
   \<and> ((\<forall>e\<in>set m. is_double (totalWeight (snd e)))
        \<longrightarrow> (\<forall>e\<in>set (outer_loop ws rs i m). is_double (totalWeight (snd e))))"
proof (induction ws rs i m rule: outer_loop.induct)
  case (1 ws rs i m)
  show ?case
  proof (cases "i < length rs")
    case False
    then show ?thesis
      by (simp add: outer_loop.simps claimed_keys_def)
  next
    case True
    then have d: "drop i rs = rs ! i # drop (i + 1) rs"
      by (simp add: Cons_nth_drop_Suc)
    let ?m' = "inner_loop (weight_at ws i) (identities (rs ! i)) m"
    have run: "outer_loop ws rs i m = outer_loop ws rs (i + 1) ?m'"
      using True by (simp add: outer_loop.simps [of ws rs i m])
    from "1.IH" [OF True] True d show ?thesis
      unfolding run
      by (simp add: upt_conv_Cons vote_of_inner_loop keys_inner_loop doubles_inner_loop
          claimed_keys_def insertion_order_append)
  qed
qed

lemma vote_of_Nil: "vote_of [] k = Fin 0"
  by (simp add: vote_of_def map_get_def)

lemma accumulated_vote_spec:
  "accumulated_vote h rs k = spec_accumulated_vote (calculateResolutionWeights h rs) rs k"
  using outer_loop_result [of "calculateResolutionWeights h rs" rs 0 "[]"]
  by (simp add: accumulated_vote_def tally_def spec_accumulated_vote_def spec_claims_def vote_of_Nil)

lemma tally_keys_order: "map fst (tally h rs) = insertion_order [] (claimed_keys rs)"
  using outer_loop_result [of "calculateResolutionWeights h rs" rs 0 "[]"]
  by (simp add: tally_def)

lemma tally_doubles: "e \<in> set (tally h rs) \<Longrightarrow> is_double (totalWeight (snd e))"
  using outer_loop_result [of "calculateResolutionWeights h rs" rs 0 "[]"]
  by (simp add: tally_def)

lemma tally_distinct: "distinct (map fst (tally h rs))"
  using distinct_insertion_order [of "[]" "claimed_keys rs"] by (simp add: tally_keys_order)

lemma tally_keys: "fst ` set (tally h rs) = set (claimed_keys rs)"
  using tally_keys_order [of h rs, THEN arg_cong, of set] by (simp add: set_insertion_order)

lemma vote_of_entry:
  assumes "distinct (map fst v)" and "x \<in> set v"
  shows "vote_of v (fst x) = totalWeight (snd x)"
  using assms by (cases x) (simp add: vote_of_def map_get_def)

lemma tally_entry:
  assumes "e \<in> set (tally h rs)"
  shows "accumulated_vote h rs (fst e) = totalWeight (snd e)"
  using vote_of_entry [OF tally_distinct assms] by (simp add: accumulated_vote_def)

lemma num_less_trans: "num_less x y \<Longrightarrow> num_less y z \<Longrightarrow> num_less x z"
  unfolding num_less_def by (cases x; cases y; cases z) auto

lemma not_num_less: "x \<noteq> NaN \<Longrightarrow> y \<noteq> NaN \<Longrightarrow> \<not> num_less x y \<longleftrightarrow> num_le y x"
  unfolding num_less_def by (cases x; cases y) auto

lemma desc_compare:
  assumes "is_double (totalWeight (snd a))" and "is_double (totalWeight (snd b))"
    and "totalWeight (snd a) \<noteq> NaN" and "totalWeight (snd b) \<noteq> NaN"
  shows "negative (sort_compare by_total_weight_desc a b)
           \<longleftrightarrow> num_less (totalWeight (snd b)) (totalWeight (snd a))"
    and "positive (sort_compare by_total_weight_desc a b)
           \<longleftrightarrow> num_less (totalWeight (snd a)) (totalWeight (snd b))"
    and "sort_compare by_total_weight_desc a b = Fin 0
           \<longleftrightarrow> num_le (totalWeight (snd a)) (totalWeight (snd b))
               \<and> num_le (totalWeight (snd b)) (totalWeight (snd a))"
    and "sort_compare by_total_weight_desc a b \<noteq> NaN"
proof -
  define d where "d = js_sub (totalWeight (snd b)) (totalWeight (snd a))"
  have c: "sort_compare by_total_weight_desc a b = (if d = NaN then Fin 0 else d)"
    by (simp add: sort_compare_def by_total_weight_desc_def Let_def d_def)
  note s = sub_sign [OF assms(1,2,3,4), folded d_def]
  show "negative (sort_compare by_total_weight_desc a b)
      \<longleftrightarrow> num_less (totalWeight (snd b)) (totalWeight (snd a))"
    using s(1) by (cases "d = NaN") (auto simp: c)
  show "positive (sort_compare by_total_weight_desc a b)
      \<longleftrightarrow> num_less (totalWeight (snd a)) (totalWeight (snd b))"
    using s(2) by (cases "d = NaN") (auto simp: c)
  show "sort_compare by_total_weight_desc a b = Fin 0
      \<longleftrightarrow> num_le (totalWeight (snd a)) (totalWeight (snd b))
          \<and> num_le (totalWeight (snd b)) (totalWeight (snd a))"
    using s(3) by (cases "d = NaN") (auto simp: c)
  show "sort_compare by_total_weight_desc a b \<noteq> NaN"
    by (simp add: c)
qed

lemma consistent_votes:
  assumes "\<And>e. e \<in> S \<Longrightarrow> is_double (totalWeight (snd e)) \<and> totalWeight (snd e) \<noteq> NaN"
  shows "consistent (sort_compare by_total_weight_desc) S"
proof (rule consistentI)
  fix a b x
  assume "a \<in> S" "b \<in> S" "x \<in> S"
  with assms have a: "is_double (totalWeight (snd a))" "totalWeight (snd a) \<noteq> NaN"
    and b: "is_double (totalWeight (snd b))" "totalWeight (snd b) \<noteq> NaN"
    and x: "is_double (totalWeight (snd x))" "totalWeight (snd x) \<noteq> NaN"
    by blast+
  note ab = desc_compare [OF a(1) b(1) a(2) b(2)]
  note ba = desc_compare [OF b(1) a(1) b(2) a(2)]
  note bx = desc_compare [OF b(1) x(1) b(2) x(2)]
  note ax = desc_compare [OF a(1) x(1) a(2) x(2)]
  note aa = desc_compare [OF a(1) a(1) a(2) a(2)]
  show "sort_compare by_total_weight_desc a b \<noteq> NaN"
    by (rule ab(4))
  show "sort_compare by_total_weight_desc a a = Fin 0"
    using num_le_refl [OF a(2)] by (simp add: aa(3))
  show "sort_compare by_total_weight_desc a b = Fin 0
      \<Longrightarrow> sort_compare by_total_weight_desc b a = Fin 0"
    by (simp add: ab(3) ba(3))
  show "sort_compare by_total_weight_desc a b = Fin 0
      \<Longrightarrow> sort_compare by_total_weight_desc b x = Fin 0
      \<Longrightarrow> sort_compare by_total_weight_desc a x = Fin 0"
    unfolding ab(3) bx(3) ax(3) using num_le_trans by blast
  show "negative (sort_compare by_total_weight_desc a b)
      \<Longrightarrow> negative (sort_compare by_total_weight_desc b x)
      \<Longrightarrow> negative (sort_compare by_total_weight_desc a x)"
    unfolding ab(1) bx(1) ax(1) using num_less_trans by blast
  show "positive (sort_compare by_total_weight_desc a b)
      \<Longrightarrow> positive (sort_compare by_total_weight_desc b x)
      \<Longrightarrow> positive (sort_compare by_total_weight_desc a x)"
    unfolding ab(2) bx(2) ax(2) using num_less_trans by blast
qed

lemma consensus_first_maximum:
  assumes s: "ecma_sort (arraySort h)" and ne: "claimed_keys rs \<noteq> []"
    and nn: "\<And>k. k \<in> set (claimed_keys rs) \<Longrightarrow> accumulated_vote h rs k \<noteq> NaN"
  shows "\<exists>k pre post. establishConsensusIdentity h rs = Inr k
           \<and> claimed_keys rs = pre @ k # post \<and> k \<notin> set pre
           \<and> (\<forall>k'\<in>set pre. num_less (accumulated_vote h rs k') (accumulated_vote h rs k))
           \<and> (\<forall>k'\<in>set (claimed_keys rs).
                 num_le (accumulated_vote h rs k') (accumulated_vote h rs k))"
proof -
  let ?v = "tally h rs"
  let ?c = "sort_compare by_total_weight_desc"
  have entry: "is_double (totalWeight (snd e)) \<and> totalWeight (snd e) \<noteq> NaN"
    and vote: "accumulated_vote h rs (fst e) = totalWeight (snd e)" if "e \<in> set ?v" for e
  proof -
    from that have "fst e \<in> set (claimed_keys rs)"
      using tally_keys [of h rs] by auto
    from nn [OF this] tally_entry [OF that] tally_doubles [OF that]
    show "is_double (totalWeight (snd e)) \<and> totalWeight (snd e) \<noteq> NaN"
      by simp
    show "accumulated_vote h rs (fst e) = totalWeight (snd e)"
      by (rule tally_entry [OF that])
  qed
  have c: "consistent ?c (set ?v)"
    by (rule consistent_votes) (rule entry)
  have v_ne: "?v \<noteq> []"
    using ne tally_keys [of h rs] by auto
  from ecma_sort_hd [OF s c v_ne] obtain p m q where
    split: "?v = p @ m # q"
    and sorted_ne: "arraySort h by_total_weight_desc ?v \<noteq> []"
    and hd: "hd (arraySort h by_total_weight_desc ?v) = m"
    and lt: "\<forall>b\<in>set p. negative (?c m b)"
    and le: "\<forall>b\<in>set ?v. \<not> negative (?c b m)"
    by blast
  have m: "m \<in> set ?v"
    using split by simp
  have run: "establishConsensusIdentity h rs = Inr (fst m)"
    using sorted_ne hd
    by (cases "arraySort h by_total_weight_desc ?v") (simp_all add: establishConsensusIdentity_def)
  have "insertion_order [] (claimed_keys rs) = map fst p @ fst m # map fst q"
    using tally_keys_order [of h rs] split by simp
  from insertion_order_split [OF this] obtain pre post where
    cs: "claimed_keys rs = pre @ fst m # post" and fresh: "fst m \<notin> set pre"
    and sub: "set pre \<subseteq> set (map fst p)"
    by auto
  have before: "num_less (accumulated_vote h rs k') (accumulated_vote h rs (fst m))"
    if "k' \<in> set pre" for k'
  proof -
    from that sub obtain x where x: "x \<in> set p" "fst x = k'"
      by auto
    then have xv: "x \<in> set ?v"
      using split by simp
    from lt x(1) have "negative (?c m x)"
      by simp
    then have "num_less (totalWeight (snd x)) (totalWeight (snd m))"
      using desc_compare(1) [of m x] entry [OF m] entry [OF xv] by simp
    then show ?thesis
      using vote [OF xv] vote [OF m] x(2) by simp
  qed
  have all: "num_le (accumulated_vote h rs k') (accumulated_vote h rs (fst m))"
    if "k' \<in> set (claimed_keys rs)" for k'
  proof -
    from that tally_keys [of h rs] have "k' \<in> fst ` set ?v"
      by simp
    then obtain x where x: "x \<in> set ?v" "fst x = k'"
      by (auto simp: image_iff)
    from le x(1) have "\<not> negative (?c x m)"
      by simp
    then have "\<not> num_less (totalWeight (snd m)) (totalWeight (snd x))"
      using desc_compare(1) [of x m] entry [OF m] entry [OF x(1)] by simp
    then have "num_le (totalWeight (snd x)) (totalWeight (snd m))"
      using not_num_less [of "totalWeight (snd m)" "totalWeight (snd x)"] entry [OF m]
        entry [OF x(1)] by simp
    then show ?thesis
      using vote [OF x(1)] vote [OF m] x(2) by simp
  qed
  from run cs fresh before all show ?thesis
    by blast
qed

lemma outer_loop_no_claims:
  assumes "\<forall>r\<in>set rs. identities r = []"
  shows "outer_loop ws rs i m = m"
  using assms
proof (induction ws rs i m rule: outer_loop.induct)
  case (1 ws rs i m)
  show ?case
  proof (cases "i < length rs")
    case False
    then show ?thesis by (simp add: outer_loop.simps)
  next
    case True
    then have e: "identities (rs ! i) = []"
      using "1.prems" by simp
    from "1.IH" [OF True "1.prems"] True e show ?thesis
      by (simp add: outer_loop.simps [of ws rs i m])
  qed
qed

lemma consensus_no_claims:
  assumes "ecma_sort (arraySort h)" and "\<forall>r\<in>set rs. identities r = []"
  shows "establishConsensusIdentity h rs = Inl TypeError"
  using outer_loop_no_claims [OF assms(2), of "calculateResolutionWeights h rs" 0 "[]"]
  by (simp add: establishConsensusIdentity_def tally_def ecma_sort_Nil [OF assms(1)])

subsection \<open>Concrete votes\<close>

text \<open>
  A concrete rounding is checked against the binary exponent and the integer significand of
  its result.
\<close>

lemma half_even_cert:
  assumes "\<bar>z - of_int m\<bar> < 1 / 2"
  shows "half_even z = m"
proof -
  from assms have lo: "of_int m - 1 / 2 < z" and hi: "z < of_int m + 1 / 2"
    by linarith+
  show ?thesis
  proof (cases "of_int m \<le> z")
    case True
    with hi have f: "\<lfloor>z\<rfloor> = m"
      by (intro floor_unique) simp_all
    with hi show ?thesis
      by (simp add: half_even_def Let_def)
  next
    case False
    with lo have f: "\<lfloor>z\<rfloor> = m - 1"
      by (intro floor_unique) simp_all
    with lo show ?thesis
      by (simp add: half_even_def Let_def)
  qed
qed

lemma fl_cert:
  assumes "2 powi e \<le> x" and "x < 2 powi (e + 1)" and "- 1022 \<le> e" and "e < 1023"
    and "half_even (x * 2 powi (52 - e)) = m"
    and "y = of_int m / 2 powi (52 - e)"
  shows "fl x = Fin y"
proof -
  have pos: "0 < x"
    using two_powi_pos [of e] assms(1) by (rule less_le_trans)
  have b: "binade x = e"
    by (rule binade_unique [OF pos assms(1,2)])
  have e: "expo x = e"
    using pos assms(3) by (simp add: expo_def b)
  have i: "(2::rat) powi (e - 52) * 2 powi (52 - e) = 1"
    by (simp add: power_int_add [symmetric])
  have u: "ulp x = 2 powi (e - 52)"
    by (simp only: ulp_def e)
  have inv: "x / ulp x = x * 2 powi (52 - e)" and inv': "of_int m * ulp x = of_int m / 2 powi (52 - e)"
    using i by (simp_all add: u field_simps)
  have n: "nearest x = y"
    using pos assms(5) by (simp add: nearest_def inv inv' assms(6))
  have "nearest x \<le> 2 powi (expo x + 1)"
    by (rule nearest_le_next_binade [OF pos])
  also have "\<dots> \<le> 2 powi 1023"
    using assms(4) by (intro two_powi_le) (simp add: e)
  also have "\<dots> < 2 powi 1024"
    by (rule two_powi_less) simp
  finally have "nearest x < 2 ^ 1024"
    by (simp only: power_int_numeral)
  moreover have "0 \<le> nearest x"
    using pos by (intro nearest_nonneg) simp
  ultimately show ?thesis
    by (simp add: fl_def Let_def n [symmetric])
qed

lemma fl_0 [simp]: "fl 0 = Fin 0"
  by (simp add: fl_def nearest_0)

lemma half_even_tie:
  assumes "z = of_int f + 1 / 2" and "m = (if even f then f else f + 1)"
  shows "half_even z = m"
proof -
  have "\<lfloor>z\<rfloor> = f"
    by (intro floor_unique) (simp_all add: assms(1))
  then show ?thesis
    by (simp add: half_even_def Let_def assms)
qed

lemma fl_one: "fl 1 = Fin 1"
  by (rule fl_cert [where e = 0 and m = 4503599627370496], simp, simp, simp, simp,
      rule half_even_cert, simp, simp)

lemma fl_half: "fl (1 / 2) = Fin (1 / 2)"
  by (rule fl_cert [where e = "- 1" and m = 4503599627370496], simp, simp, simp, simp,
      rule half_even_cert, simp, simp)

lemma fl_lit_09: "fl (9 / 10) = Fin (8106479329266893 / 9007199254740992)"
  by (rule fl_cert [where e = "- 1" and m = 8106479329266893], simp, simp, simp, simp,
      rule half_even_cert, simp, simp)

lemma fl_lit_03: "fl (3 / 10) = Fin (5404319552844595 / 18014398509481984)"
  by (rule fl_cert [where e = "- 2" and m = 5404319552844595], simp, simp, simp, simp,
      rule half_even_cert, simp, simp)

lemma fl_lit_08: "fl (4 / 5) = Fin (3602879701896397 / 4503599627370496)"
  by (rule fl_cert [where e = "- 1" and m = 7205759403792794], simp, simp, simp, simp,
      rule half_even_cert, simp, simp)

lemma fl_lit_04: "fl (2 / 5) = Fin (3602879701896397 / 9007199254740992)"
  by (rule fl_cert [where e = "- 2" and m = 7205759403792794], simp, simp, simp, simp,
      rule half_even_cert, simp, simp)

lemma fl_lit_01: "fl (1 / 10) = Fin (3602879701896397 / 36028797018963968)"
  by (rule fl_cert [where e = "- 4" and m = 7205759403792794], simp, simp, simp, simp,
      rule half_even_cert, simp, simp)

lemma fl_lit_02: "fl (1 / 5) = Fin (3602879701896397 / 18014398509481984)"
  by (rule fl_cert [where e = "- 3" and m = 7205759403792794], simp, simp, simp, simp,
      rule half_even_cert, simp, simp)

lemma fl_lit_030000000000000004: "fl (7500000000000001 / 25000000000000000) = Fin (1351079888211149 / 4503599627370496)"
  by (rule fl_cert [where e = "- 2" and m = 5404319552844596], simp, simp, simp, simp,
      rule half_even_cert, simp, simp)

lemma fl_lit_105: "fl (21 / 20) = Fin (4728779608739021 / 4503599627370496)"
  by (rule fl_cert [where e = 0 and m = 4728779608739021], simp, simp, simp, simp,
      rule half_even_cert, simp, simp)

lemma fl_dbl_09: "fl (8106479329266893 / 9007199254740992) = Fin (8106479329266893 / 9007199254740992)"
  by (rule fl_cert [where e = "- 1" and m = 8106479329266893], simp, simp, simp, simp,
      rule half_even_cert, simp, simp)

lemma fl_dbl_03: "fl (5404319552844595 / 18014398509481984) = Fin (5404319552844595 / 18014398509481984)"
  by (rule fl_cert [where e = "- 2" and m = 5404319552844595], simp, simp, simp, simp,
      rule half_even_cert, simp, simp)

lemma fl_dbl_08: "fl (3602879701896397 / 4503599627370496) = Fin (3602879701896397 / 4503599627370496)"
  by (rule fl_cert [where e = "- 1" and m = 7205759403792794], simp, simp, simp, simp,
      rule half_even_cert, simp, simp)

lemma fl_dbl_04: "fl (3602879701896397 / 9007199254740992) = Fin (3602879701896397 / 9007199254740992)"
  by (rule fl_cert [where e = "- 2" and m = 7205759403792794], simp, simp, simp, simp,
      rule half_even_cert, simp, simp)

lemma fl_dbl_01: "fl (3602879701896397 / 36028797018963968) = Fin (3602879701896397 / 36028797018963968)"
  by (rule fl_cert [where e = "- 4" and m = 7205759403792794], simp, simp, simp, simp,
      rule half_even_cert, simp, simp)

lemma fl_dbl_02: "fl (3602879701896397 / 18014398509481984) = Fin (3602879701896397 / 18014398509481984)"
  by (rule fl_cert [where e = "- 3" and m = 7205759403792794], simp, simp, simp, simp,
      rule half_even_cert, simp, simp)

lemma fl_dbl_105: "fl (4728779608739021 / 4503599627370496) = Fin (4728779608739021 / 4503599627370496)"
  by (rule fl_cert [where e = 0 and m = 4728779608739021], simp, simp, simp, simp,
      rule half_even_cert, simp, simp)

lemma fl_dbl_030000000000000004: "fl (1351079888211149 / 4503599627370496) = Fin (1351079888211149 / 4503599627370496)"
  by (rule fl_cert [where e = "- 2" and m = 5404319552844596], simp, simp, simp, simp,
      rule half_even_cert, simp, simp)

lemma fl_half_03: "fl (5404319552844595 / 36028797018963968) = Fin (5404319552844595 / 36028797018963968)"
  by (rule fl_cert [where e = "- 3" and m = 5404319552844595], simp, simp, simp, simp,
      rule half_even_cert, simp, simp)

lemma fl_half_09: "fl (8106479329266893 / 18014398509481984) = Fin (8106479329266893 / 18014398509481984)"
  by (rule fl_cert [where e = "- 2" and m = 8106479329266893], simp, simp, simp, simp,
      rule half_even_cert, simp, simp)

lemma fl_half_01: "fl (3602879701896397 / 72057594037927936) = Fin (3602879701896397 / 72057594037927936)"
  by (rule fl_cert [where e = "- 5" and m = 7205759403792794], simp, simp, simp, simp,
      rule half_even_cert, simp, simp)

lemma fl_sum_09_015: "fl (37830236869912167 / 36028797018963968) = Fin (4728779608739021 / 4503599627370496)"
  by (rule fl_cert [where e = 0 and m = 4728779608739021], simp, simp, simp, simp,
      rule half_even_cert, simp, simp)

lemma fl_sum_01_02: "fl (10808639105689191 / 36028797018963968) = Fin (1351079888211149 / 4503599627370496)"
  by (rule fl_cert [where e = "- 2" and m = 5404319552844596], simp, simp, simp, simp,
      rule half_even_tie [where f = 5404319552844595], simp, simp, simp)

lemma fl_sum_045_005: "fl (36028797018963969 / 72057594037927936) = Fin (1 / 2)"
  by (rule fl_cert [where e = "- 1" and m = 4503599627370496], simp, simp, simp, simp,
      rule half_even_cert, simp, simp)

lemma fl_sum_09_01: "fl (36028797018963969 / 36028797018963968) = Fin 1"
  by (rule fl_cert [where e = 0 and m = 4503599627370496], simp, simp, simp, simp,
      rule half_even_cert, simp, simp)

lemmas double_facts = fl_one fl_half fl_lit_09 fl_lit_03 fl_lit_08 fl_lit_04 fl_lit_01 fl_lit_02 fl_lit_030000000000000004 fl_lit_105 fl_dbl_09 fl_dbl_03 fl_dbl_08 fl_dbl_04 fl_dbl_01 fl_dbl_02 fl_dbl_105 fl_dbl_030000000000000004 fl_half_03 fl_half_09 fl_half_01 fl_sum_09_015 fl_sum_01_02 fl_sum_045_005 fl_sum_09_01

lemma positive_desc:
  assumes "fl a = Fin a" and "fl b = Fin b"
  shows "positive (by_total_weight_desc (k, \<lparr>totalWeight = Fin a, sources = s\<rparr>)
           (k', \<lparr>totalWeight = Fin b, sources = s'\<rparr>)) \<longleftrightarrow> a < b"
  using sub_sign(2) [of "Fin a" "Fin b"] assms
  by (simp add: by_total_weight_desc_def num_less_def less_le_not_le)

lemmas run_simps =
  accumulated_vote_def contributing_sources_def vote_of_def sources_of_def
  establishConsensusIdentity_def tally_def outer_loop.simps weight_at_def cast_vote_def
  map_get_def array_sort_def positive_desc uniform_helpers_def with_weights_def dbl_def

lemma scenario1_votes:
  "accumulated_vote (with_weights scenario1_weights) scenario1 ''A'' = dbl (105 / 100)"
  "accumulated_vote (with_weights scenario1_weights) scenario1 ''B'' = dbl (8 / 10)"
  by (simp_all add: run_simps scenario1_def scenario1_weights_def claim_def double_facts)

lemma scenario1_consensus:
  "establishConsensusIdentity (with_weights scenario1_weights) scenario1 = Inr ''A''"
  by (simp add: run_simps scenario1_def scenario1_weights_def claim_def double_facts)

lemma tie_run:
  "accumulated_vote (with_weights tie_weights) tie_claims ''A''
     = accumulated_vote (with_weights tie_weights) tie_claims ''B''"
  "length (contributing_sources (with_weights tie_weights) tie_claims ''B'')
       < length (contributing_sources (with_weights tie_weights) tie_claims ''A'')"
  "establishConsensusIdentity (with_weights tie_weights) tie_claims = Inr ''B''"
  "establishConsensusIdentity (with_weights tie_weights) (rev tie_claims) = Inr ''A''"
  by (simp_all add: run_simps tie_claims_def tie_weights_def claim_def double_facts)

text \<open>
  The votes are sums of doubles: with A claimed at 0.1 and at 0.2 and B claimed at
  0.30000000000000004, all of weight 1, the two votes are the same double and the consensus
  is A, the key claimed first.
\<close>

lemma rounding_tie_run:
  "accumulated_vote uniform_helpers rounding_tie_claims ''A'' = dbl (30000000000000004 / 100000000000000000)"
  "accumulated_vote uniform_helpers rounding_tie_claims ''B'' = dbl (30000000000000004 / 100000000000000000)"
  "establishConsensusIdentity uniform_helpers rounding_tie_claims = Inr ''A''"
  by (simp_all add: run_simps rounding_tie_claims_def claim_def double_facts)

lemma A_less_B: "''A'' < ''B''"
  by (simp add: less_char_def)

lemma split_run:
  "accumulated_vote split_weights lone_claim ''A'' = dbl (9 / 10)"
  "accumulated_vote split_weights (add_claim lone_claim 0 1 (claim ''A'' ''strategy1'' (1 / 10))) ''A''
     = dbl (1 / 2)"
  "\<not> num_le (dbl (9 / 10)) (dbl (1 / 2))"
  by (simp_all add: run_simps split_weights_def lone_claim_def add_claim_def claim_def double_facts)

subsection \<open>Votes and one more claim\<close>

lemma fl_mono:
  assumes "x \<le> y"
  shows "num_le (fl x) (fl y)"
proof -
  have "nearest x \<le> nearest y"
    by (rule nearest_mono [OF assms])
  moreover have "(0::rat) < 2 ^ 1024"
    by simp
  ultimately show ?thesis
    unfolding fl_def Let_def by auto
qed

lemma num_le_PosInf: "x \<noteq> NaN \<Longrightarrow> num_le x PosInf"
  by (cases x) simp_all

lemma num_le_NegInf: "x \<noteq> NaN \<Longrightarrow> num_le NegInf x"
  by (cases x) simp_all

lemma js_add_mono_left:
  assumes "num_le x x'" and "js_add x b \<noteq> NaN" and "js_add x' b \<noteq> NaN"
  shows "num_le (js_add x b) (js_add x' b)"
  using assms by (cases x; cases x'; cases b) (simp_all add: fl_mono num_le_PosInf num_le_NegInf)

lemma foldl_NaN: "foldl (\<lambda>v wc. js_add v (js_mul (fst wc) (snd wc))) NaN l = NaN"
  by (induction l) simp_all

lemma foldl_votes_mono:
  assumes "num_le x x'"
    and "foldl (\<lambda>v wc. js_add v (js_mul (fst wc) (snd wc))) x l \<noteq> NaN"
    and "foldl (\<lambda>v wc. js_add v (js_mul (fst wc) (snd wc))) x' l \<noteq> NaN"
  shows "num_le (foldl (\<lambda>v wc. js_add v (js_mul (fst wc) (snd wc))) x l)
           (foldl (\<lambda>v wc. js_add v (js_mul (fst wc) (snd wc))) x' l)"
  using assms
proof (induction l arbitrary: x x')
  case Nil
  then show ?case by simp
next
  case (Cons a l)
  let ?t = "js_mul (fst a) (snd a)"
  have "js_add x ?t \<noteq> NaN" and "js_add x' ?t \<noteq> NaN"
    using Cons.prems(2,3) foldl_NaN [of l] by (auto simp del: js_add.simps)
  from js_add_mono_left [OF Cons.prems(1) this] Cons.IH [of "js_add x ?t" "js_add x' ?t"]
    Cons.prems(2,3)
  show ?case
    by simp
qed

lemma foldl_votes_double:
  "is_double x \<Longrightarrow> is_double (foldl (\<lambda>v wc. js_add v (js_mul (fst wc) (snd wc))) x l)"
  by (induction l arbitrary: x) simp_all

lemma js_add_nonneg:
  assumes "is_double x" and "num_le (Fin 0) t" and "js_add x t \<noteq> NaN"
  shows "num_le x (js_add x t)"
proof -
  have fin: "num_le (Fin a) (fl (a + b))" if "fl a = Fin a" and "0 \<le> b" for a b
    using fl_mono [of a "a + b"] that by simp
  show ?thesis
    using assms fin by (cases x; cases t) simp_all
qed

lemma js_mul_nonneg:
  assumes "num_le (Fin 0) w" and "positive c" and "js_mul w c \<noteq> NaN"
  shows "num_le (Fin 0) (js_mul w c)"
proof -
  have fin: "num_le (Fin 0) (fl (a * b))" if "0 \<le> a" and "0 < b" for a b
    using fl_mono [of 0 "a * b"] that by simp
  show ?thesis
    using assms fin by (cases w; cases c) (auto split: if_splits)
qed

lemma length_add_claim: "length (add_claim rs i j c) = length rs"
  by (simp add: add_claim_def)

lemma spec_claims_add_claim:
  assumes "i < length rs"
  shows "\<exists>pre suf. spec_claims ws rs k = pre @ suf
           \<and> spec_claims ws (add_claim rs i j c) k
               = pre @ (if fst c = k then [(weight_at ws i, confidence (snd c))] else []) @ suf"
proof -
  let ?g = "\<lambda>n c. (weight_at ws n, confidence (snd c))"
  let ?f = "\<lambda>R n. map (?g n) (filter (\<lambda>c. fst c = k) (identities (R ! n)))"
  let ?R = "add_claim rs i j c"
  let ?ids = "identities (rs ! i)"
  have upt: "[0..<length rs] = [0..<i] @ i # [Suc i..<length rs]"
    using assms by (metis upt_conv_Cons upt_add_eq_append le0 le_add_diff_inverse less_imp_le add.left_neutral)
  have before: "map (?f ?R) [0..<i] = map (?f rs) [0..<i]"
    by (rule map_cong) (simp_all add: add_claim_def)
  have after: "map (?f ?R) [Suc i..<length rs] = map (?f rs) [Suc i..<length rs]"
    by (rule map_cong) (simp_all add: add_claim_def)
  have at_new: "?f ?R i = map (?g i) (filter (\<lambda>c. fst c = k) (take j ?ids))
      @ (if fst c = k then [(weight_at ws i, confidence (snd c))] else [])
      @ map (?g i) (filter (\<lambda>c. fst c = k) (drop j ?ids))"
    using assms by (simp add: add_claim_def)
  have "?f rs i = map (?g i) (filter (\<lambda>c. fst c = k) (take j ?ids @ drop j ?ids))"
    by simp
  then have at_old: "?f rs i = map (?g i) (filter (\<lambda>c. fst c = k) (take j ?ids))
      @ map (?g i) (filter (\<lambda>c. fst c = k) (drop j ?ids))"
    by (simp only: filter_append map_append)
  let ?pre = "concat (map (?f rs) [0..<i]) @ map (?g i) (filter (\<lambda>c. fst c = k) (take j ?ids))"
  let ?suf = "map (?g i) (filter (\<lambda>c. fst c = k) (drop j ?ids))
      @ concat (map (?f rs) [Suc i..<length rs])"
  have old: "spec_claims ws rs k = ?pre @ ?suf"
    unfolding spec_claims_def
    by (subst upt) (simp only: map_append list.map concat_append concat.simps at_old append_assoc)
  have new: "spec_claims ws ?R k
      = ?pre @ (if fst c = k then [(weight_at ws i, confidence (snd c))] else []) @ ?suf"
    unfolding spec_claims_def length_add_claim
    by (subst upt)
      (simp only: map_append list.map concat_append concat.simps at_new before after append_assoc)
  from old new show ?thesis
    by blast
qed

lemma vote_not_decreased:
  assumes w: "calculateResolutionWeights h (add_claim rs i j c) = calculateResolutionWeights h rs"
    and i: "i < length rs"
    and pc: "positive (confidence (snd c))"
    and pw: "num_le (Fin 0) (weight_at (calculateResolutionWeights h rs) i)"
    and old: "accumulated_vote h rs (fst c) \<noteq> NaN"
    and new: "accumulated_vote h (add_claim rs i j c) (fst c) \<noteq> NaN"
  shows "num_le (accumulated_vote h rs (fst c)) (accumulated_vote h (add_claim rs i j c) (fst c))"
proof -
  let ?ws = "calculateResolutionWeights h rs"
  let ?step = "\<lambda>v wc. js_add v (js_mul (fst wc) (snd wc))"
  let ?t = "js_mul (weight_at ?ws i) (confidence (snd c))"
  from spec_claims_add_claim [OF i, of ?ws "fst c" j c] obtain pre suf where
    o: "spec_claims ?ws rs (fst c) = pre @ suf"
    and n: "spec_claims ?ws (add_claim rs i j c) (fst c)
        = pre @ [(weight_at ?ws i, confidence (snd c))] @ suf"
    by auto
  define x where "x = foldl ?step (Fin 0) pre"
  have old_eq: "accumulated_vote h rs (fst c) = foldl ?step x suf"
    by (simp add: accumulated_vote_spec spec_accumulated_vote_def o x_def)
  have new_eq: "accumulated_vote h (add_claim rs i j c) (fst c) = foldl ?step (js_add x ?t) suf"
    by (simp add: accumulated_vote_spec spec_accumulated_vote_def w n x_def)
  have dx: "is_double x"
    unfolding x_def by (rule foldl_votes_double) simp
  have xt: "js_add x ?t \<noteq> NaN"
    using new foldl_NaN [of suf] unfolding new_eq by (auto simp del: js_add.simps)
  then have t: "?t \<noteq> NaN"
    by (cases x) auto
  have "num_le (Fin 0) ?t"
    by (rule js_mul_nonneg [OF pw pc t])
  from js_add_nonneg [OF dx this xt] have "num_le x (js_add x ?t)" .
  from foldl_votes_mono [OF this] old new show ?thesis
    unfolding old_eq new_eq by simp
qed

lemma js_mul_in_range:
  assumes "num_le (Fin 0) w" and "is_finite w"
    and "num_le (Fin 0) c" and "num_le c (Fin 1)"
  shows "num_le (Fin 0) (js_mul w c)"
proof -
  from assms(1,2) obtain a where w: "w = Fin a" "0 \<le> a"
    by (cases w) auto
  from assms(3,4) obtain b where c: "c = Fin b" "0 \<le> b"
    by (cases c) auto
  from w c have "0 \<le> a * b"
    by simp
  from fl_mono [OF this] show ?thesis
    by (simp add: w c)
qed

lemma js_add_in_range:
  assumes "num_le (Fin 0) x" and "num_le (Fin 0) t"
  shows "num_le (Fin 0) (js_add x t)"
proof -
  have fin: "num_le (Fin 0) (fl (a + b))" if "0 \<le> a" and "0 \<le> b" for a b
    using fl_mono [of 0 "a + b"] that by simp
  show ?thesis
    using assms fin by (cases x; cases t) simp_all
qed

lemma foldl_votes_in_range:
  assumes "num_le (Fin 0) x"
    and "\<forall>wc\<in>set l. num_le (Fin 0) (js_mul (fst wc) (snd wc))"
  shows "num_le (Fin 0) (foldl (\<lambda>v wc. js_add v (js_mul (fst wc) (snd wc))) x l)"
  using assms
proof (induction l arbitrary: x)
  case Nil
  then show ?case by simp
next
  case (Cons a l)
  from Cons.prems have "num_le (Fin 0) (js_add x (js_mul (fst a) (snd a)))"
    by (intro js_add_in_range) simp_all
  from Cons.IH [OF this] Cons.prems(2) show ?case
    by simp
qed

lemma spec_claims_member:
  assumes "wc \<in> set (spec_claims ws rs k)"
  shows "\<exists>i c. i < length rs \<and> c \<in> set (identities (rs ! i)) \<and> fst c = k
           \<and> wc = (weight_at ws i, confidence (snd c))"
  using assms by (fastforce simp: spec_claims_def)

lemma votes_in_range:
  assumes "length rs \<le> length (calculateResolutionWeights h rs)"
    and "\<forall>w\<in>set (calculateResolutionWeights h rs). num_le (Fin 0) w \<and> is_finite w"
    and "\<forall>r\<in>set rs. \<forall>c\<in>set (identities r).
           num_le (Fin 0) (confidence (snd c)) \<and> num_le (confidence (snd c)) (Fin 1)"
  shows "num_le (Fin 0) (accumulated_vote h rs k)"
proof -
  let ?ws = "calculateResolutionWeights h rs"
  have "num_le (Fin 0) (js_mul (fst wc) (snd wc))" if "wc \<in> set (spec_claims ?ws rs k)" for wc
  proof -
    from spec_claims_member [OF that] obtain i c where i: "i < length rs"
      and c: "c \<in> set (identities (rs ! i))" and wc: "wc = (weight_at ?ws i, confidence (snd c))"
      by blast
    from i assms(1) have "weight_at ?ws i \<in> set ?ws"
      by (simp add: weight_at_def)
    with assms(2) have w: "num_le (Fin 0) (weight_at ?ws i)" "is_finite (weight_at ?ws i)"
      by blast+
    from i have "rs ! i \<in> set rs"
      by simp
    with assms(3) c have r: "num_le (Fin 0) (confidence (snd c))"
      "num_le (confidence (snd c)) (Fin 1)"
      by blast+
    from js_mul_in_range [OF w(1) w(2) r(1) r(2)] show ?thesis
      by (simp add: wc)
  qed
  then show ?thesis
    unfolding accumulated_vote_spec spec_accumulated_vote_def
    by (intro foldl_votes_in_range) simp_all
qed

lemma late_tie_run:
  "accumulated_vote uniform_helpers late_tie_claims ''C'' = dbl (1 / 10)"
  "accumulated_vote uniform_helpers late_tie_claims ''B'' = dbl (8 / 10)"
  "accumulated_vote uniform_helpers late_tie_claims ''A'' = dbl (8 / 10)"
  "establishConsensusIdentity uniform_helpers late_tie_claims = Inr ''B''"
  "num_less (dbl (1 / 10)) (dbl (8 / 10))"
  by (simp_all add: run_simps late_tie_claims_def claim_def double_facts num_less_def)

lemma lone_claim_run:
  "accumulated_vote uniform_helpers lone_claim ''A'' = dbl (9 / 10)"
  "accumulated_vote uniform_helpers
     (add_claim lone_claim 0 1 (claim ''A'' ''strategy1'' (1 / 10))) ''A'' = Fin 1"
  "num_le (dbl (9 / 10)) (Fin 1)"
  by (simp_all add: run_simps lone_claim_def add_claim_def claim_def double_facts)

subsection \<open>Rejections and exceptions of identity resolution\<close>

lemma promise_all_None:
  "None \<in> set ps \<Longrightarrow> promise_all ps = Inl StrategyFailure"
  by (induction ps rule: promise_all.induct) auto

lemma promise_all_Some: "promise_all (map Some xs) = Inr xs"
  by (induction xs) auto

lemma promise_all_Inr: "promise_all ps = Inr xs \<Longrightarrow> ps = map Some xs"
  by (induction ps arbitrary: xs rule: promise_all.induct) (auto split: sum.splits)

lemma promise_all_Inl: "promise_all ps = Inl e \<Longrightarrow> e = StrategyFailure"
  by (induction ps rule: promise_all.induct) (auto split: sum.splits)

lemma claim_edges_Inl: "claim_edges a cs g = Inl e \<Longrightarrow> e = DanglingReferenceError"
  by (induction cs arbitrary: g) (auto simp: addIdentityEdge_def split: sum.splits if_splits)

lemma resolution_edges_Inl: "resolution_edges a rs g = Inl e \<Longrightarrow> e = DanglingReferenceError"
  by (induction rs arbitrary: g) (auto split: sum.splits dest: claim_edges_Inl)

lemma consensus_Inl: "establishConsensusIdentity h rs = Inl e \<Longrightarrow> e = TypeError"
  by (auto simp: establishConsensusIdentity_def split: list.splits)

lemma resolve_identity_Inl:
  assumes "resolveCustomerIdentity h outcomes a = Inl e"
  shows "e \<in> {StrategyFailure, TypeError, DanglingReferenceError}"
  using assms
  by (auto simp: resolveCustomerIdentity_def split: sum.splits
      dest: promise_all_Inl consensus_Inl resolution_edges_Inl)

lemma resolve_identity_rejected:
  assumes "None \<in> set (resolutionPromises outcomes)"
  shows "resolveCustomerIdentity h outcomes a = Inl StrategyFailure"
  using promise_all_None [OF assms] by (simp add: resolveCustomerIdentity_def)

lemma resolve_identity_no_claims:
  assumes "ecma_sort (arraySort h)"
    and "resolutionPromises outcomes = map Some rs" and "\<forall>r\<in>set rs. identities r = []"
  shows "resolveCustomerIdentity h outcomes a = Inl TypeError"
  using assms(2) consensus_no_claims [OF assms(1,3)]
  by (simp add: resolveCustomerIdentity_def promise_all_Some)

lemma ecma_sort_uniform: "ecma_sort (arraySort uniform_helpers)"
  by (simp add: uniform_helpers_def ecma_sort_array_sort)

lemma ecma_sort_with_weights: "ecma_sort (arraySort (with_weights ws))"
  by (simp add: with_weights_def uniform_helpers_def ecma_sort_array_sort)

lemma email_fails_run:
  "resolveCustomerIdentity uniform_helpers email_fails ''c1'' = Inl StrategyFailure"
  by (simp add: resolveCustomerIdentity_def resolutionPromises_def email_fails_def)

lemma all_empty_run:
  "resolveCustomerIdentity uniform_helpers all_empty ''c1'' = Inl TypeError"
  by (rule resolve_identity_no_claims [where rs = "[no_claims, no_claims, no_claims, no_claims]"])
     (simp_all add: resolutionPromises_def all_empty_def no_claims_def ecma_sort_uniform)

lemma consensus_uniform_single:
  "establishConsensusIdentity uniform_helpers
     [no_claims, \<lparr>identities = [claim k s c]\<rparr>, no_claims, no_claims] = Inr k"
  "establishConsensusIdentity uniform_helpers
     [\<lparr>identities = [claim k s c]\<rparr>, no_claims, no_claims, no_claims] = Inr k"
  by (simp_all add: establishConsensusIdentity_def tally_def outer_loop.simps weight_at_def
      cast_vote_def map_get_def array_sort_def uniform_helpers_def no_claims_def claim_def)

lemma other_identity_run:
  "resolveCustomerIdentity uniform_helpers other_identity ''c1'' = Inl DanglingReferenceError"
  by (simp add: resolveCustomerIdentity_def resolutionPromises_def other_identity_def
      consensus_uniform_single)
     (simp add: addIdentityNode_def addIdentityEdge_def new_graph_def map_get_def claim_def
      no_claims_def)

lemma email_empty_run:
  "resolveCustomerIdentity uniform_helpers email_empty ''c1'' =
     Inr \<lparr>masterCustomerId = ''c1'',
          identityGraph =
            \<lparr>nodes = [(''c1'', \<lparr>originSources = [''initial''], nodeConfidence = Fin 1\<rparr>)],
             edges = [\<lparr>edgeFrom = ''c1'', edgeTo = ''c1'',
                       edgeData = \<lparr>edgeRelationship = ''same_customer'',
                                   edgeConfidence = dbl (9 / 10),
                                   temporalValidity = (0, 0)\<rparr>\<rparr>]\<rparr>,
          resolutionConfidence = Fin 1, identityAttributes = []\<rparr>"
  by (simp add: resolveCustomerIdentity_def resolutionPromises_def email_empty_def
      consensus_uniform_single)
     (simp add: addIdentityNode_def addIdentityEdge_def new_graph_def map_get_def claim_def
      no_claims_def uniform_helpers_def)

lemma all_Some: "None \<notin> set ps \<Longrightarrow> ps = map Some (map the ps)"
  by (induction ps) auto

lemma map_get_map_set: "map_get (map_set m k v) k' = (if k' = k then Some v else map_get m k')"
  by (simp add: map_get_def map_of_map_set)

lemma addIdentityNode_present:
  "map_get (nodes (addIdentityNode g k md)) k' \<noteq> None \<longleftrightarrow> k' = k \<or> map_get (nodes g) k' \<noteq> None"
  by (auto simp: addIdentityNode_def map_get_map_set split: option.splits)

lemma addIdentityNode_edges: "edges (addIdentityNode g k md) = edges g"
  by (simp add: addIdentityNode_def split: option.splits)

lemma well_formed_addIdentityNode:
  "well_formed g \<Longrightarrow> well_formed (addIdentityNode g k md)"
  unfolding well_formed_def list_all_iff addIdentityNode_edges
  using addIdentityNode_present by blast

lemma well_formed_addIdentityEdge:
  "well_formed g \<Longrightarrow> addIdentityEdge g a b md = Inr g' \<Longrightarrow> well_formed g'"
  by (auto simp: well_formed_def addIdentityEdge_def split: if_splits)

lemma well_formed_new_graph: "well_formed new_graph"
  by (simp add: well_formed_def new_graph_def)

lemma claim_edges_Inr:
  assumes "claim_edges a cs g = Inr g'"
  shows "nodes g' = nodes g \<and> (\<forall>c\<in>set cs. map_get (nodes g) (fst c) \<noteq> None)
           \<and> (well_formed g \<longrightarrow> well_formed g')"
  using assms
proof (induction cs arbitrary: g)
  case Nil
  then show ?case by simp
next
  case (Cons c cs)
  then obtain g1 where
    g1: "addIdentityEdge g a (fst c)
           \<lparr>edgeRelationship = relationship (snd c), edgeConfidence = confidence (snd c),
            temporalValidity = temporalScope (snd c)\<rparr> = Inr g1"
    and rest: "claim_edges a cs g1 = Inr g'"
    by (auto split: sum.splits)
  from g1 have n: "nodes g1 = nodes g" and p: "map_get (nodes g) (fst c) \<noteq> None"
    by (auto simp: addIdentityEdge_def split: if_splits)
  from Cons.IH [OF rest] n p well_formed_addIdentityEdge [OF _ g1] show ?case
    by auto
qed

lemma resolution_edges_Inr:
  assumes "resolution_edges a rs g = Inr g'"
  shows "nodes g' = nodes g \<and> (\<forall>k\<in>set (claimed_keys rs). map_get (nodes g) k \<noteq> None)
           \<and> (well_formed g \<longrightarrow> well_formed g')"
  using assms
proof (induction rs arbitrary: g)
  case Nil
  then show ?case by (simp add: claimed_keys_def)
next
  case (Cons r rs)
  then obtain g1 where g1: "claim_edges a (identities r) g = Inr g1"
    and rest: "resolution_edges a rs g1 = Inr g'"
    by (auto split: sum.splits)
  from claim_edges_Inr [OF g1] Cons.IH [OF rest] show ?case
    by (auto simp: claimed_keys_def)
qed

lemma resolve_identity_Inr:
  assumes "resolveCustomerIdentity h outcomes a = Inr res"
  shows "\<exists>rs. resolutionPromises outcomes = map Some rs
           \<and> (\<forall>k\<in>set (claimed_keys rs). k = a)
           \<and> well_formed (identityGraph res)
           \<and> nodes (identityGraph res) = [(a, \<lparr>originSources = [''initial''], nodeConfidence = Fin 1\<rparr>)]"
proof -
  let ?g0 = "addIdentityNode new_graph a \<lparr>nodeSource = ''initial'', givenConfidence = Fin 1\<rparr>"
  from assms obtain rs k g where
    rs: "promise_all (resolutionPromises outcomes) = Inr rs"
    and g: "resolution_edges a rs ?g0 = Inr g"
    and res: "identityGraph res = g"
    by (auto simp: resolveCustomerIdentity_def split: sum.splits)
  have n0: "nodes ?g0 = [(a, \<lparr>originSources = [''initial''], nodeConfidence = Fin 1\<rparr>)]"
    by (simp add: addIdentityNode_def new_graph_def map_get_def)
  have wf0: "well_formed ?g0"
    by (rule well_formed_addIdentityNode [OF well_formed_new_graph])
  from resolution_edges_Inr [OF g] n0 wf0 have
    "\<forall>k\<in>set (claimed_keys rs). k = a" "well_formed g" "nodes g = nodes ?g0"
    by (auto simp: map_get_def split: if_splits)
  with promise_all_Inr [OF rs] res n0 show ?thesis
    by auto
qed

lemma resolve_identity_without_evidence:
  assumes "ecma_sort (arraySort h)"
    and "\<forall>p\<in>set (resolutionPromises outcomes). case p of None \<Rightarrow> True | Some r \<Rightarrow> identities r = []"
  shows "resolveCustomerIdentity h outcomes initialIdentifier =
           (if None \<in> set (resolutionPromises outcomes) then Inl StrategyFailure else Inl TypeError)"
proof (cases "None \<in> set (resolutionPromises outcomes)")
  case True
  then show ?thesis
    by (simp add: resolve_identity_rejected)
next
  case False
  let ?rs = "map the (resolutionPromises outcomes)"
  have ps: "resolutionPromises outcomes = map Some ?rs"
    by (rule all_Some [OF False])
  have "\<forall>r\<in>set ?rs. identities r = []"
  proof
    fix r assume "r \<in> set ?rs"
    then obtain p where p: "p \<in> set (resolutionPromises outcomes)" "r = the p"
      by auto
    with False obtain r' where "p = Some r'"
      by (cases p) auto
    with assms(2) p show "identities r = []"
      by force
  qed
  from resolve_identity_no_claims [OF assms(1) ps this] False show ?thesis
    by simp
qed

subsection \<open>The loops of conflict resolution\<close>

lemma pass_append:
  "pass select resolve (xs @ ys) st =
     (case pass select resolve xs st of Inl e \<Rightarrow> Inl e | Inr st' \<Rightarrow> pass select resolve ys st')"
  by (induction xs arbitrary: st) (auto split: sum.splits)

lemma conflicts_loop_pass:
  "conflicts_loop select resolve d cs st = pass select resolve (map (Pair d) cs) st"
  by (induction cs arbitrary: st) (auto split: sum.splits)

lemma dimensions_loop_pass:
  "dimensions_loop select resolve detectedConflicts st =
     pass select resolve (conflicts_in_order detectedConflicts) st"
  by (induction detectedConflicts arbitrary: st)
     (auto simp: conflicts_in_order_def pass_append conflicts_loop_pass split: sum.splits)

lemma resolve_conflict_Inr:
  assumes "resolve_conflict select resolve d c st = Inr st'"
  shows "\<exists>sr. resolution_of select resolve c = Inr sr
           \<and> fst st' = map_set (fst st) d (resolvedValue (snd sr))
           \<and> snd st' = snd st @
                 [\<lparr>entryDimension = d, entryConflict = description c, entryStrategy = fst sr,
                   entryResolution = explanation (snd sr),
                   entryConfidence = resolvedConfidence (snd sr)\<rparr>]"
  using assms by (auto simp: resolve_conflict_def split: sum.splits)

lemma distinct_map_set: "distinct (map fst m) \<Longrightarrow> distinct (map fst (map_set m k v))"
  by (simp add: keys_map_set)

lemma pass_log:
  assumes "pass select resolve flat st = Inr st'"
  shows "map entryDimension (snd st') = map entryDimension (snd st) @ map fst flat
           \<and> map entryConflict (snd st') = map entryConflict (snd st) @ map (\<lambda>dc. description (snd dc)) flat"
  using assms
proof (induction flat arbitrary: st)
  case Nil
  then show ?case by simp
next
  case (Cons dc flat)
  then obtain st1 where one: "resolve_conflict select resolve (fst dc) (snd dc) st = Inr st1"
    and rest: "pass select resolve flat st1 = Inr st'"
    by (auto split: sum.splits)
  from resolve_conflict_Inr [OF one] Cons.IH [OF rest] show ?case
    by auto
qed

lemma pass_distinct:
  assumes "pass select resolve flat st = Inr st'" and "distinct (map fst (fst st))"
  shows "distinct (map fst (fst st'))"
  using assms
proof (induction flat arbitrary: st)
  case Nil
  then show ?case by simp
next
  case (Cons dc flat)
  then obtain st1 where one: "resolve_conflict select resolve (fst dc) (snd dc) st = Inr st1"
    and rest: "pass select resolve flat st1 = Inr st'"
    by (auto split: sum.splits)
  from resolve_conflict_Inr [OF one] Cons.prems(2) have "distinct (map fst (fst st1))"
    by (auto simp: distinct_map_set)
  from Cons.IH [OF rest this] show ?case .
qed

lemma pass_profile:
  assumes "pass select resolve flat st = Inr st'"
  shows "(filter (\<lambda>dc. fst dc = d) flat = [] \<longrightarrow> map_get (fst st') d = map_get (fst st) d)
         \<and> (filter (\<lambda>dc. fst dc = d) flat \<noteq> [] \<longrightarrow>
              (\<exists>sr. resolution_of select resolve (snd (last (filter (\<lambda>dc. fst dc = d) flat))) = Inr sr
                 \<and> map_get (fst st') d = Some (resolvedValue (snd sr))))"
  using assms
proof (induction flat arbitrary: st)
  case Nil
  then show ?case by simp
next
  case (Cons dc flat)
  then obtain st1 where one: "resolve_conflict select resolve (fst dc) (snd dc) st = Inr st1"
    and rest: "pass select resolve flat st1 = Inr st'"
    by (auto split: sum.splits)
  from resolve_conflict_Inr [OF one] obtain sr where
    sr: "resolution_of select resolve (snd dc) = Inr sr"
    and st1: "fst st1 = map_set (fst st) (fst dc) (resolvedValue (snd sr))"
    by blast
  have get1: "map_get (fst st1) d = (if d = fst dc then Some (resolvedValue (snd sr)) else map_get (fst st) d)"
    by (simp add: st1 map_get_map_set)
  show ?case
  proof (cases "filter (\<lambda>dc. fst dc = d) flat = []")
    case True
    with Cons.IH [OF rest] have "map_get (fst st') d = map_get (fst st1) d"
      by simp
    with True get1 sr show ?thesis
      by (cases sr) auto
  next
    case False
    with Cons.IH [OF rest] show ?thesis
      by auto
  qed
qed

lemma pass_total:
  assumes "\<forall>dc\<in>set flat. \<exists>sr. resolution_of select resolve (snd dc) = Inr sr"
  shows "\<exists>st'. pass select resolve flat st = Inr st'"
  using assms
proof (induction flat arbitrary: st)
  case Nil
  then show ?case by simp
next
  case (Cons dc flat)
  then obtain sr where "resolution_of select resolve (snd dc) = Inr sr"
    by auto
  then obtain st1 where "resolve_conflict select resolve (fst dc) (snd dc) st = Inr st1"
    by (simp add: resolve_conflict_def)
  with Cons.IH [of st1] Cons.prems show ?case
    by simp
qed

lemma pass_fails:
  assumes "dc \<in> set flat" and "isl (resolution_of select resolve (snd dc))"
  shows "isl (pass select resolve flat st)"
  using assms(1)
proof (induction flat arbitrary: st)
  case Nil
  then show ?case by simp
next
  case (Cons x flat)
  show ?case
  proof (cases "resolve_conflict select resolve (fst x) (snd x) st")
    case (Inl e)
    then show ?thesis by simp
  next
    case (Inr st1)
    then have "\<not> isl (resolution_of select resolve (snd x))"
      by (auto simp: resolve_conflict_def split: sum.splits)
    with assms(2) Cons.prems have "dc \<in> set flat"
      by auto
    from Cons.IH [OF this] Inr show ?thesis
      by simp
  qed
qed

lemma resolve_detected_total:
  assumes "\<forall>dc\<in>set (conflicts_in_order detectedConflicts).
             \<not> isl (resolution_of select resolve (snd dc))"
  shows "\<exists>res. resolve_detected remaining select resolve detectedConflicts = Inr res"
proof -
  have "\<forall>dc\<in>set (conflicts_in_order detectedConflicts).
      \<exists>sr. resolution_of select resolve (snd dc) = Inr sr"
  proof
    fix dc
    assume "dc \<in> set (conflicts_in_order detectedConflicts)"
    with assms have "\<not> isl (resolution_of select resolve (snd dc))"
      by blast
    then show "\<exists>sr. resolution_of select resolve (snd dc) = Inr sr"
      by (cases "resolution_of select resolve (snd dc)") auto
  qed
  from pass_total [OF this, of "([], [])"] show ?thesis
    by (auto simp: resolve_detected_def dimensions_loop_pass)
qed

lemma resolve_detected_fails:
  assumes "dc \<in> set (conflicts_in_order detectedConflicts)"
    and "isl (resolution_of select resolve (snd dc))"
  shows "isl (resolve_detected remaining select resolve detectedConflicts)"
  using pass_fails [OF assms, of "([], [])"]
  by (auto simp: resolve_detected_def dimensions_loop_pass split: sum.splits)

lemma resolve_detected_Inr:
  assumes "resolve_detected remaining select resolve detectedConflicts = Inr res"
  shows "pass select resolve (conflicts_in_order detectedConflicts) ([], [])
           = Inr (resolvedProfile res, resolutionLog res)"
    and "remainingConflicts res = remaining (resolvedProfile res)"
  using assms
  by (auto simp: resolve_detected_def dimensions_loop_pass split: sum.splits)

lemma resolved_log_length:
  assumes "resolve_detected remaining select resolve detectedConflicts = Inr res"
  shows "length (resolutionLog res) = length (conflicts_in_order detectedConflicts)"
proof -
  from pass_log [OF resolve_detected_Inr(1) [OF assms]]
  have "map entryDimension (resolutionLog res) = map fst (conflicts_in_order detectedConflicts)"
    by simp
  then show ?thesis
    using length_map by metis
qed

subsection \<open>A concrete run\<close>

lemma sample_detection: "detectConflicts sample_detector sample_profile = sample_detected"
  by (simp add: sample_detector_def spec_detectConflicts_def detect_attribute_def
      distinct_values_def sample_profile_def demographic_attributes_def city_candidates_def cand_def dotted_def
      sample_detected_def income_conflict_def segment_conflict_def tier_conflict_def)

lemma sample_resolutions:
  "resolution_of always_reliability reliability_resolve income_conflict =
     Inr (''source_reliability'',
          \<lparr>resolvedValue = Number 5000, explanation = ''srcA'', resolvedConfidence = 9 / 10\<rparr>)"
  "resolution_of always_reliability reliability_resolve segment_conflict =
     Inr (''source_reliability'',
          \<lparr>resolvedValue = Text ''premium'', explanation = ''srcB'', resolvedConfidence = 8 / 10\<rparr>)"
  "resolution_of always_reliability reliability_resolve tier_conflict =
     Inr (''source_reliability'',
          \<lparr>resolvedValue = Text ''gold'', explanation = ''srcA'', resolvedConfidence = 7 / 10\<rparr>)"
  by (simp_all add: resolution_of_def always_reliability_def resolutionStrategies_def
      reliability_resolve_def income_conflict_def segment_conflict_def tier_conflict_def cand_def)

lemma sample_failures:
  "resolution_of always_consensus reliability_resolve income_conflict = Inl StrategyMismatchError"
  by (simp add: resolution_of_def always_consensus_def resolutionStrategies_def
      reliability_resolve_def)

lemma sample_descriptions:
  "description income_conflict = ''demographic.income''"
  "description segment_conflict = ''demographic.segment''"
  "description tier_conflict = ''behavioral.tier''"
  by (simp_all add: income_conflict_def segment_conflict_def tier_conflict_def)

lemma sample_run:
  "resolve_detected (detectRemainingConflicts sample_detector) always_reliability
     reliability_resolve sample_detected = Inr sample_resolution"
  by (simp add: resolve_detected_def sample_detected_def resolve_conflict_def sample_resolutions
      sample_descriptions sample_resolution_def sample_detector_def)

lemma sample_profile_run:
  "resolveProfileConflicts sample_detector always_reliability reliability_resolve sample_profile
     = Inr sample_resolution"
  by (simp add: resolveProfileConflicts_def sample_detection sample_run)

lemma sample_unknown_run:
  "resolveProfileConflicts sample_detector unknown_strategy reliability_resolve sample_profile
     = Inl TypeError"
  by (simp add: resolveProfileConflicts_def sample_detection resolve_detected_def
      sample_detected_def resolve_conflict_def resolution_of_def unknown_strategy_def
      resolutionStrategies_def)

lemma sample_failing_run:
  "resolveProfileConflicts sample_detector always_consensus reliability_resolve sample_profile
     = Inl StrategyMismatchError"
  by (simp add: resolveProfileConflicts_def sample_detection resolve_detected_def
      sample_detected_def resolve_conflict_def sample_failures)

lemma sample_order:
  "conflicts_in_order sample_detected =
     [(''demographic'', income_conflict), (''demographic'', segment_conflict),
      (''behavioral'', tier_conflict)]"
  by (simp add: conflicts_in_order_def sample_detected_def)

lemma demographic_after_behavioral: "\<not> ''demographic'' \<le> ''behavioral''"
  by (simp add: less_eq_char_def less_char_def)

subsection \<open>The detector\<close>

lemma detect_attribute_conflict:
  assumes "c \<in> set (detect_attribute describe tol d ac)"
  shows "conflictDimension c = d \<and> conflictAttribute c = fst ac \<and> candidates c = snd ac
           \<and> 1 < length (distinct_values tol (snd ac))"
  using assms by (auto simp: detect_attribute_def split: if_splits)

lemma detected_conflict_origin:
  assumes "dc \<in> set (spec_detectConflicts describe tol p)" and "c \<in> set (snd dc)"
  shows "\<exists>attrs cs. (fst dc, attrs) \<in> set p \<and> (conflictAttribute c, cs) \<in> set attrs
           \<and> conflictDimension c = fst dc \<and> candidates c = cs
           \<and> 1 < length (distinct_values tol cs)"
proof -
  from assms obtain da ac where da: "da \<in> set p" "fst dc = fst da"
    and ac: "ac \<in> set (snd da)" "c \<in> set (detect_attribute describe tol (fst da) ac)"
    by (auto simp: spec_detectConflicts_def)
  from detect_attribute_conflict [OF ac(2)] da ac(1) show ?thesis
    by (cases da, cases ac) auto
qed

lemma conflicts_in_order_member:
  "dc \<in> set (conflicts_in_order detectedConflicts)
     \<longleftrightarrow> (\<exists>cs. (fst dc, cs) \<in> set detectedConflicts \<and> snd dc \<in> set cs)"
  by (cases dc) (force simp: conflicts_in_order_def)

lemma single_value_not_detected:
  assumes "distinct (map fst p)" and "(d, attrs) \<in> set p"
    and "distinct (map fst attrs)" and "(a, cs) \<in> set attrs"
    and "distinct_values tol cs = [v]"
    and "dc \<in> set (conflicts_in_order (spec_detectConflicts describe tol p))"
  shows "\<not> (fst dc = d \<and> conflictAttribute (snd dc) = a)"
    and "conflictDimension (snd dc) = fst dc"
proof -
  from assms(6) obtain confs where "(fst dc, confs) \<in> set (spec_detectConflicts describe tol p)"
    and "snd dc \<in> set confs"
    by (auto simp: conflicts_in_order_member)
  from detected_conflict_origin [OF this(1)] this(2) obtain attrs' cs' where
    o: "(fst dc, attrs') \<in> set p" "(conflictAttribute (snd dc), cs') \<in> set attrs'"
      "conflictDimension (snd dc) = fst dc" "1 < length (distinct_values tol cs')"
    by fastforce
  show "conflictDimension (snd dc) = fst dc"
    by (rule o(3))
  show "\<not> (fst dc = d \<and> conflictAttribute (snd dc) = a)"
  proof
    assume same: "fst dc = d \<and> conflictAttribute (snd dc) = a"
    with o assms(1,2) have "attrs' = attrs"
      using eq_key_imp_eq_value by fastforce
    with o same assms(3,4) have "cs' = cs"
      using eq_key_imp_eq_value by fastforce
    with o(4) assms(5) show False
      by simp
  qed
qed

lemma resolved_value_origin:
  assumes "pass select resolve flat ([], []) = Inr st"
  shows "map_get (fst st) d = None
         \<or> (\<exists>dc\<in>set flat. fst dc = d
               \<and> (\<exists>sr. resolution_of select resolve (snd dc) = Inr sr
                      \<and> map_get (fst st) d = Some (resolvedValue (snd sr))))"
proof (cases "filter (\<lambda>dc. fst dc = d) flat = []")
  case True
  with pass_profile [OF assms, of d] show ?thesis
    by (simp add: map_get_def)
next
  case False
  let ?l = "last (filter (\<lambda>dc. fst dc = d) flat)"
  from False have "?l \<in> set (filter (\<lambda>dc. fst dc = d) flat)"
    by (rule last_in_set)
  then have "?l \<in> set flat" and "fst ?l = d"
    by simp_all
  with pass_profile [OF assms, of d] False show ?thesis
    by blast
qed

subsection \<open>The consensus identity\<close>

text \<open>
  C1. Whenever some identity is claimed and no accumulated vote is \<open>NaN\<close>,
  \<open>#establishConsensusIdentity\<close> returns a claimed key whose accumulated vote is maximal
  among the claimed keys, on every engine whose sort keeps the promise of the language. The
  vote the code holds for a key is the one of the specification, \<open>vote[key] +=
  strategyWeight[i] * claim.confidence\<close> over the claims for the key in their order, each
  product and each sum rounded to a double. No vote is \<open>NaN\<close> when every strategy has a
  finite weight that is not negative and every confidence lies in \<open>[0, 1]\<close>. In scenario 1
  (A: 0.9 with weight 1.0, A: 0.3 with weight 0.5, B: 0.8 with weight 1.0) the vote of A is
  the double 1.05, the vote of B is the double 0.8 and the consensus is A.
\<close>

theorem consensus_has_maximal_vote:
  "(ecma_sort (arraySort h) \<and> claimed_keys rs \<noteq> []
      \<and> (\<forall>k\<in>set (claimed_keys rs). accumulated_vote h rs k \<noteq> NaN) \<longrightarrow>
      (\<exists>k. establishConsensusIdentity h rs = Inr k \<and> k \<in> set (claimed_keys rs)
         \<and> (\<forall>k'. accumulated_vote h rs k'
                    = spec_accumulated_vote (calculateResolutionWeights h rs) rs k')
         \<and> (\<forall>k'\<in>set (claimed_keys rs).
               num_le (spec_accumulated_vote (calculateResolutionWeights h rs) rs k')
                 (spec_accumulated_vote (calculateResolutionWeights h rs) rs k))))
   \<and> (length rs \<le> length (calculateResolutionWeights h rs)
        \<and> (\<forall>w\<in>set (calculateResolutionWeights h rs). num_le (Fin 0) w \<and> is_finite w)
        \<and> (\<forall>r\<in>set rs. \<forall>c\<in>set (identities r).
              num_le (Fin 0) (confidence (snd c)) \<and> num_le (confidence (snd c)) (Fin 1)) \<longrightarrow>
        (\<forall>k. accumulated_vote h rs k \<noteq> NaN))
   \<and> accumulated_vote (with_weights scenario1_weights) scenario1 ''A'' = dbl (105 / 100)
   \<and> accumulated_vote (with_weights scenario1_weights) scenario1 ''B'' = dbl (8 / 10)
   \<and> establishConsensusIdentity (with_weights scenario1_weights) scenario1 = Inr ''A''"
proof -
  let ?ws = "calculateResolutionWeights h rs"
  have general: "\<exists>k. establishConsensusIdentity h rs = Inr k \<and> k \<in> set (claimed_keys rs)
         \<and> (\<forall>k'. accumulated_vote h rs k' = spec_accumulated_vote ?ws rs k')
         \<and> (\<forall>k'\<in>set (claimed_keys rs).
               num_le (spec_accumulated_vote ?ws rs k') (spec_accumulated_vote ?ws rs k))"
    if "ecma_sort (arraySort h)" and "claimed_keys rs \<noteq> []"
      and "\<forall>k\<in>set (claimed_keys rs). accumulated_vote h rs k \<noteq> NaN"
  proof -
    from consensus_first_maximum [OF that(1,2)] that(3) obtain k pre post where
      k: "establishConsensusIdentity h rs = Inr k"
      and cs: "claimed_keys rs = pre @ k # post"
      and le: "\<forall>k'\<in>set (claimed_keys rs).
                 num_le (accumulated_vote h rs k') (accumulated_vote h rs k)"
      by blast
    have "k \<in> set (claimed_keys rs)"
      using cs by simp
    with k le show ?thesis
      by (auto simp: accumulated_vote_spec)
  qed
  have numbers: "accumulated_vote h rs k \<noteq> NaN"
    if "length rs \<le> length ?ws"
      and "\<forall>w\<in>set ?ws. num_le (Fin 0) w \<and> is_finite w"
      and "\<forall>r\<in>set rs. \<forall>c\<in>set (identities r).
             num_le (Fin 0) (confidence (snd c)) \<and> num_le (confidence (snd c)) (Fin 1)" for k
    using votes_in_range [OF that, of k] num_le_not_NaN by blast
  from general numbers scenario1_votes scenario1_consensus show ?thesis
    by blast
qed

theorem consensus_has_maximal_vote_witness:
  "claimed_keys scenario1 = [''A'', ''A'', ''B'']
   \<and> calculateResolutionWeights (with_weights scenario1_weights) scenario1
        = [Fin 1, Fin (1 / 2), Fin 1]
   \<and> accumulated_vote (with_weights scenario1_weights) scenario1 ''A'' \<noteq> NaN
   \<and> accumulated_vote (with_weights scenario1_weights) scenario1 ''B'' \<noteq> NaN
   \<and> establishConsensusIdentity (with_weights scenario1_weights) scenario1 = Inr ''A''
   \<and> num_le (spec_accumulated_vote [Fin 1, Fin (1 / 2), Fin 1] scenario1 ''B'')
        (spec_accumulated_vote [Fin 1, Fin (1 / 2), Fin 1] scenario1 ''A'')"
proof -
  let ?h = "with_weights scenario1_weights"
  have keys: "claimed_keys scenario1 = [''A'', ''A'', ''B'']"
    by (simp add: claimed_keys_def scenario1_def claim_def)
  have ws: "calculateResolutionWeights ?h scenario1 = [Fin 1, Fin (1 / 2), Fin 1]"
    by (simp add: with_weights_def scenario1_weights_def dbl_def double_facts)
  have range: "length scenario1 \<le> length (calculateResolutionWeights ?h scenario1)
      \<and> (\<forall>w\<in>set (calculateResolutionWeights ?h scenario1). num_le (Fin 0) w \<and> is_finite w)
      \<and> (\<forall>r\<in>set scenario1. \<forall>c\<in>set (identities r).
            num_le (Fin 0) (confidence (snd c)) \<and> num_le (confidence (snd c)) (Fin 1))"
    unfolding ws by (simp add: scenario1_def claim_def dbl_def double_facts)
  with consensus_has_maximal_vote [of ?h scenario1]
  have numbers: "\<forall>k. accumulated_vote ?h scenario1 k \<noteq> NaN"
    by blast
  then have "ecma_sort (arraySort ?h) \<and> claimed_keys scenario1 \<noteq> []
      \<and> (\<forall>k\<in>set (claimed_keys scenario1). accumulated_vote ?h scenario1 k \<noteq> NaN)"
    by (simp add: ecma_sort_with_weights keys)
  with consensus_has_maximal_vote [of ?h scenario1] obtain k where
    k: "establishConsensusIdentity ?h scenario1 = Inr k"
    and le: "\<forall>k'\<in>set (claimed_keys scenario1).
        num_le (spec_accumulated_vote (calculateResolutionWeights ?h scenario1) scenario1 k')
          (spec_accumulated_vote (calculateResolutionWeights ?h scenario1) scenario1 k)"
    by blast
  from k have "k = ''A''"
    by (simp add: scenario1_consensus)
  with le keys have "num_le (spec_accumulated_vote [Fin 1, Fin (1 / 2), Fin 1] scenario1 ''B'')
      (spec_accumulated_vote [Fin 1, Fin (1 / 2), Fin 1] scenario1 ''A'')"
    by (simp add: ws)
  with keys ws numbers scenario1_consensus show ?thesis
    by simp
qed

text \<open>
  C2, as stated, fails: with B claimed once at 0.8 by the first strategy and A claimed at 0.4
  by each of the next two, all of weight 1, the votes tie at the double 0.8, A has two
  contributing sources against one and is the smaller key, and the consensus is B. With the
  same claims in the reverse order the consensus is A.
\<close>

theorem tie_break_counterexample:
  "accumulated_vote (with_weights tie_weights) tie_claims ''A''
     = accumulated_vote (with_weights tie_weights) tie_claims ''B''
   \<and> length (contributing_sources (with_weights tie_weights) tie_claims ''B'')
       < length (contributing_sources (with_weights tie_weights) tie_claims ''A'')
   \<and> ''A'' < ''B''
   \<and> establishConsensusIdentity (with_weights tie_weights) tie_claims = Inr ''B''
   \<and> establishConsensusIdentity (with_weights tie_weights) (rev tie_claims) = Inr ''A''"
  using A_less_B tie_run by simp

text \<open>
  C2, amended. Whenever some identity is claimed and no accumulated vote is \<open>NaN\<close>, the
  consensus is, among the keys that tie for the maximal vote, the one claimed first: every
  key claimed before the first claim of the consensus has a strictly smaller vote, and no
  claimed key has a larger one. The count of sources and the order of the keys play no part;
  the result is a function of the ordered claims and the weights, the same on every engine
  whose sort keeps the promise of the language.
\<close>

theorem consensus_is_first_claimed_maximum:
  assumes "ecma_sort (arraySort h)" and "claimed_keys rs \<noteq> []"
    and "\<forall>k\<in>set (claimed_keys rs). accumulated_vote h rs k \<noteq> NaN"
  shows "\<exists>k pre post. establishConsensusIdentity h rs = Inr k
           \<and> claimed_keys rs = pre @ k # post \<and> k \<notin> set pre
           \<and> (\<forall>k'\<in>set pre. num_less (accumulated_vote h rs k') (accumulated_vote h rs k))
           \<and> (\<forall>k'\<in>set (claimed_keys rs).
                 num_le (accumulated_vote h rs k') (accumulated_vote h rs k))"
  using consensus_first_maximum [OF assms(1,2)] assms(3) by blast

theorem consensus_is_first_claimed_maximum_witness:
  "claimed_keys late_tie_claims = [''C'', ''B'', ''A'', ''A'']
   \<and> accumulated_vote uniform_helpers late_tie_claims ''C'' = dbl (1 / 10)
   \<and> accumulated_vote uniform_helpers late_tie_claims ''B'' = dbl (8 / 10)
   \<and> accumulated_vote uniform_helpers late_tie_claims ''A'' = dbl (8 / 10)
   \<and> establishConsensusIdentity uniform_helpers late_tie_claims = Inr ''B''
   \<and> num_less (accumulated_vote uniform_helpers late_tie_claims ''C'')
        (accumulated_vote uniform_helpers late_tie_claims ''B'')"
proof -
  have keys: "claimed_keys late_tie_claims = [''C'', ''B'', ''A'', ''A'']"
    by (simp add: claimed_keys_def late_tie_claims_def claim_def)
  have "\<forall>k\<in>set (claimed_keys late_tie_claims). accumulated_vote uniform_helpers late_tie_claims k \<noteq> NaN"
    by (simp add: keys late_tie_run dbl_def)
  from consensus_is_first_claimed_maximum [OF ecma_sort_uniform _ this] keys
  obtain k pre post where
    k: "establishConsensusIdentity uniform_helpers late_tie_claims = Inr k"
    and split: "claimed_keys late_tie_claims = pre @ k # post" and fresh: "k \<notin> set pre"
    and before: "\<forall>k'\<in>set pre. num_less (accumulated_vote uniform_helpers late_tie_claims k')
                    (accumulated_vote uniform_helpers late_tie_claims k)"
    by auto
  from k have kB: "k = ''B''"
    by (simp add: late_tie_run)
  from split fresh keys have "pre = [''C'']"
    unfolding kB by (cases pre) (auto simp: Cons_eq_append_conv)
  with before kB keys show ?thesis
    by (simp add: late_tie_run)
qed

subsection \<open>One more claim\<close>

text \<open>
  C8, as stated, fails: the weights are computed from the claim sets (line 70), so one more
  claim may change them. With a weight of 1 for a strategy with one claim and of 0.5 for a
  strategy with more, both not negative, the vote of A is 0.9 on the single claim for A at
  0.9, and 0.5 when the same strategy claims A once more, at 0.1.
\<close>

theorem vote_falls_counterexample:
  "positive (confidence (snd (claim ''A'' ''strategy1'' (1 / 10))))
   \<and> calculateResolutionWeights split_weights lone_claim = [Fin 1]
   \<and> calculateResolutionWeights split_weights
        (add_claim lone_claim 0 1 (claim ''A'' ''strategy1'' (1 / 10))) = [Fin (1 / 2)]
   \<and> accumulated_vote split_weights lone_claim ''A'' = dbl (9 / 10)
   \<and> accumulated_vote split_weights
        (add_claim lone_claim 0 1 (claim ''A'' ''strategy1'' (1 / 10))) ''A'' = dbl (1 / 2)
   \<and> \<not> num_le (dbl (9 / 10)) (dbl (1 / 2))"
  using split_run
  by (simp add: split_weights_def uniform_helpers_def lone_claim_def add_claim_def claim_def
      dbl_def double_facts)

text \<open>
  C8, amended. When the weights computed for the extended claim sets are those computed for
  the original ones, the added claim has a positive confidence, the weight of its strategy
  is not negative and neither vote is \<open>NaN\<close>, the vote of the claimed identity on the
  extended claim sets is greater than or equal to its vote on the original ones. The claim
  may be added at any position among the claims of its strategy.
\<close>

theorem vote_not_decreased_by_claim:
  assumes "calculateResolutionWeights h (add_claim rs i j c) = calculateResolutionWeights h rs"
    and "i < length rs"
    and "positive (confidence (snd c))"
    and "num_le (Fin 0) (weight_at (calculateResolutionWeights h rs) i)"
    and "accumulated_vote h rs (fst c) \<noteq> NaN"
    and "accumulated_vote h (add_claim rs i j c) (fst c) \<noteq> NaN"
  shows "num_le (accumulated_vote h rs (fst c)) (accumulated_vote h (add_claim rs i j c) (fst c))"
  by (rule vote_not_decreased [OF assms])

theorem vote_not_decreased_by_claim_witness:
  "calculateResolutionWeights uniform_helpers
       (add_claim lone_claim 0 1 (claim ''A'' ''strategy1'' (1 / 10)))
     = calculateResolutionWeights uniform_helpers lone_claim
   \<and> positive (confidence (snd (claim ''A'' ''strategy1'' (1 / 10))))
   \<and> num_le (Fin 0) (weight_at (calculateResolutionWeights uniform_helpers lone_claim) 0)
   \<and> accumulated_vote uniform_helpers lone_claim ''A'' = dbl (9 / 10)
   \<and> accumulated_vote uniform_helpers
        (add_claim lone_claim 0 1 (claim ''A'' ''strategy1'' (1 / 10))) ''A'' = Fin 1
   \<and> num_le (accumulated_vote uniform_helpers lone_claim ''A'')
        (accumulated_vote uniform_helpers
           (add_claim lone_claim 0 1 (claim ''A'' ''strategy1'' (1 / 10))) ''A'')"
proof -
  let ?c = "claim ''A'' ''strategy1'' (1 / 10)"
  have h: "calculateResolutionWeights uniform_helpers (add_claim lone_claim 0 1 ?c)
      = calculateResolutionWeights uniform_helpers lone_claim"
    "(0::nat) < length lone_claim"
    "positive (confidence (snd ?c))"
    "num_le (Fin 0) (weight_at (calculateResolutionWeights uniform_helpers lone_claim) 0)"
    by (simp_all add: uniform_helpers_def length_add_claim lone_claim_def weight_at_def claim_def
        dbl_def double_facts)
  have k: "fst ?c = ''A''"
    by (simp add: claim_def)
  have n: "accumulated_vote uniform_helpers lone_claim (fst ?c) \<noteq> NaN"
    "accumulated_vote uniform_helpers (add_claim lone_claim 0 1 ?c) (fst ?c) \<noteq> NaN"
    using lone_claim_run by (simp_all add: k dbl_def)
  from vote_not_decreased_by_claim [OF h n] h lone_claim_run show ?thesis
    by (simp add: k)
qed

subsection \<open>Failure of identity resolution\<close>

text \<open>
  C3, as stated, fails: when the four strategies return empty claim sets the call fails with
  the \<open>TypeError\<close> of reading index \<open>0\<close> of \<open>undefined\<close>, not with \<open>NoIdentityEvidenceError\<close>.
\<close>

theorem no_evidence_counterexample:
  "resolutionPromises all_empty = [Some no_claims, Some no_claims, Some no_claims, Some no_claims]
   \<and> identities no_claims = []
   \<and> resolveCustomerIdentity uniform_helpers all_empty ''c1'' = Inl TypeError
   \<and> resolveCustomerIdentity uniform_helpers all_empty ''c1'' \<noteq> Inl NoIdentityEvidenceError"
  by (simp add: all_empty_run) (simp add: resolutionPromises_def all_empty_def no_claims_def)

text \<open>
  C3, amended. When every strategy rejects or returns an empty claim set,
  \<open>#resolveCustomerIdentity\<close> fails and returns no result, so none that defaults to the
  initial identifier: when a strategy rejects, with the rejection of a strategy, handed on
  by \<open>Promise.all\<close>; when the four strategies return empty claim sets, with the
  \<open>TypeError\<close> of line 86.
\<close>

theorem no_evidence_fails:
  assumes "ecma_sort (arraySort h)"
    and "\<forall>p\<in>set (resolutionPromises outcomes). case p of None \<Rightarrow> True | Some r \<Rightarrow> identities r = []"
  shows "resolveCustomerIdentity h outcomes initialIdentifier
           = (if None \<in> set (resolutionPromises outcomes) then Inl StrategyFailure
              else Inl TypeError)"
  by (rule resolve_identity_without_evidence [OF assms])

theorem no_evidence_fails_witness:
  "resolutionPromises no_evidence = [None, Some no_claims, Some no_claims, Some no_claims]
   \<and> identities no_claims = []
   \<and> resolveCustomerIdentity uniform_helpers no_evidence ''c1'' = Inl StrategyFailure"
proof -
  have ps: "resolutionPromises no_evidence = [None, Some no_claims, Some no_claims, Some no_claims]"
    and e: "identities no_claims = []"
    by (simp_all add: resolutionPromises_def no_evidence_def no_claims_def)
  then have "\<forall>p\<in>set (resolutionPromises no_evidence).
      case p of None \<Rightarrow> True | Some r \<Rightarrow> identities r = []"
    by simp
  from no_evidence_fails [OF ecma_sort_uniform this, of "''c1''"] ps e show ?thesis
    by simp
qed

text \<open>
  C5, as stated, fails: with the first strategy rejecting and the second one claiming the
  initial identifier the call is rejected, although it completes when the first strategy
  returns an empty claim set instead.
\<close>

theorem strategy_failure_counterexample:
  "byEmailFingerprint email_fails = None
   \<and> byDeviceGraph email_fails = Some \<lparr>identities = [claim ''c1'' ''device'' (9 / 10)]\<rparr>
   \<and> resolveCustomerIdentity uniform_helpers email_fails ''c1'' = Inl StrategyFailure
   \<and> map_sum id masterCustomerId (resolveCustomerIdentity uniform_helpers email_empty ''c1'')
       = Inr ''c1''"
  by (simp add: email_fails_run email_empty_run) (simp add: email_fails_def)

text \<open>
  C5, amended. When some strategy rejects, \<open>Promise.all\<close> rejects and
  \<open>#resolveCustomerIdentity\<close> fails as a whole: the failure is not caught and is not turned
  into an empty claim set.
\<close>

theorem strategy_failure_aborts:
  assumes "None \<in> set (resolutionPromises outcomes)"
  shows "resolveCustomerIdentity h outcomes initialIdentifier = Inl StrategyFailure"
  using promise_all_None [OF assms] by (simp add: resolveCustomerIdentity_def)

theorem strategy_failure_aborts_witness:
  "None \<in> set (resolutionPromises email_fails)
   \<and> resolveCustomerIdentity uniform_helpers email_fails ''c1'' = Inl StrategyFailure"
proof -
  have h: "None \<in> set (resolutionPromises email_fails)"
    by (simp add: resolutionPromises_def email_fails_def)
  from strategy_failure_aborts [OF h] h show ?thesis
    by simp
qed

text \<open>
  C4 asks that every claimed identity be a node before the edge from the initial identifier
  to it is added. The source inserts the initial identifier, with confidence 1 and source
  \<open>initial\<close>, and then adds one edge per claim without inserting the claimed identity: with
  a claim for another identity the endpoint of the edge is absent and the construction fails
  with \<open>DanglingReferenceError\<close>. No edge of a graph that was built dangles
  (\<open>resolve_identity_Inr\<close>), for want of any edge to another identity.
\<close>

theorem claimed_identity_has_no_node:
  "byEmailFingerprint other_identity = Some \<lparr>identities = [claim ''c2'' ''email'' (9 / 10)]\<rparr>
   \<and> map_get (nodes (addIdentityNode new_graph ''c1''
                      \<lparr>nodeSource = ''initial'', givenConfidence = Fin 1\<rparr>)) ''c2'' = None
   \<and> resolveCustomerIdentity uniform_helpers other_identity ''c1'' = Inl DanglingReferenceError"
  by (simp add: other_identity_run)
     (simp add: other_identity_def addIdentityNode_def new_graph_def map_get_def)

subsection \<open>Conflict resolution\<close>

text \<open>
  C6, as stated, fails: no exception is caught in \<open>#resolveProfileConflicts\<close>, so a conflict
  that cannot be resolved ends the call. With statistical consensus selected and a resolver
  that fails with \<open>StrategyMismatchError\<close>, the call on a profile with three conflicts fails
  with that error and returns neither a log nor remaining conflicts; with a selected key
  that \<open>resolutionStrategies\<close> does not have, the call fails with the \<open>TypeError\<close> of line 132.
\<close>

theorem unresolved_conflict_counterexample:
  "(''demographic'', income_conflict)
     \<in> set (conflicts_in_order (detectConflicts sample_detector sample_profile))
   \<and> resolution_of always_consensus reliability_resolve income_conflict
       = Inl StrategyMismatchError
   \<and> resolveProfileConflicts sample_detector always_consensus reliability_resolve sample_profile
       = Inl StrategyMismatchError
   \<and> resolutionStrategies ''majority_vote'' = None
   \<and> resolveProfileConflicts sample_detector unknown_strategy reliability_resolve sample_profile
       = Inl TypeError"
  by (simp add: sample_detection sample_order sample_failures sample_failing_run
      sample_unknown_run resolutionStrategies_def)

text \<open>
  C6, amended. When the selection of the strategy and the resolver succeed for every detected
  conflict, the call returns, the log has exactly one entry for every detected conflict, and
  the remaining conflicts are what \<open>detectRemainingConflicts\<close> reports on the resolved
  profile; the two lengths add up to the number of detected conflicts exactly when that
  report is empty. When the selection or the resolver fails for some detected conflict, the
  call fails and returns nothing.
\<close>

theorem log_entry_for_every_conflict:
  "((\<forall>dc\<in>set (conflicts_in_order detectedConflicts).
        \<not> isl (resolution_of select resolve (snd dc))) \<longrightarrow>
      (\<exists>res. resolve_detected remaining select resolve detectedConflicts = Inr res
         \<and> length (resolutionLog res) = length (conflicts_in_order detectedConflicts)
         \<and> remainingConflicts res = remaining (resolvedProfile res)
         \<and> (length (resolutionLog res) + length (remainingConflicts res)
               = length (conflicts_in_order detectedConflicts)
             \<longleftrightarrow> remaining (resolvedProfile res) = [])))
   \<and> ((\<exists>dc\<in>set (conflicts_in_order detectedConflicts).
          isl (resolution_of select resolve (snd dc))) \<longrightarrow>
        isl (resolve_detected remaining select resolve detectedConflicts))"
proof (intro conjI impI)
  assume "\<forall>dc\<in>set (conflicts_in_order detectedConflicts).
      \<not> isl (resolution_of select resolve (snd dc))"
  from resolve_detected_total [OF this] obtain res where
    res: "resolve_detected remaining select resolve detectedConflicts = Inr res"
    by blast
  from resolved_log_length [OF res] resolve_detected_Inr(2) [OF res] res
  show "\<exists>res. resolve_detected remaining select resolve detectedConflicts = Inr res
         \<and> length (resolutionLog res) = length (conflicts_in_order detectedConflicts)
         \<and> remainingConflicts res = remaining (resolvedProfile res)
         \<and> (length (resolutionLog res) + length (remainingConflicts res)
               = length (conflicts_in_order detectedConflicts)
             \<longleftrightarrow> remaining (resolvedProfile res) = [])"
    by auto
next
  assume "\<exists>dc\<in>set (conflicts_in_order detectedConflicts).
      isl (resolution_of select resolve (snd dc))"
  then show "isl (resolve_detected remaining select resolve detectedConflicts)"
    using resolve_detected_fails by blast
qed

theorem log_entry_for_every_conflict_witness:
  "conflicts_in_order sample_detected =
     [(''demographic'', income_conflict), (''demographic'', segment_conflict),
      (''behavioral'', tier_conflict)]
   \<and> \<not> isl (resolution_of always_reliability reliability_resolve income_conflict)
   \<and> \<not> isl (resolution_of always_reliability reliability_resolve segment_conflict)
   \<and> \<not> isl (resolution_of always_reliability reliability_resolve tier_conflict)
   \<and> resolve_detected (detectRemainingConflicts sample_detector) always_reliability
        reliability_resolve sample_detected = Inr sample_resolution
   \<and> length (resolutionLog sample_resolution) = 3
   \<and> isl (resolution_of always_consensus reliability_resolve income_conflict)
   \<and> isl (resolve_detected (detectRemainingConflicts sample_detector) always_consensus
        reliability_resolve sample_detected)"
proof -
  have ok: "\<forall>dc\<in>set (conflicts_in_order sample_detected).
      \<not> isl (resolution_of always_reliability reliability_resolve (snd dc))"
    by (simp add: sample_order sample_resolutions)
  have bad: "\<exists>dc\<in>set (conflicts_in_order sample_detected).
      isl (resolution_of always_consensus reliability_resolve (snd dc))"
    by (simp add: sample_order sample_failures)
  from log_entry_for_every_conflict
    [of sample_detected always_reliability reliability_resolve
      "detectRemainingConflicts sample_detector"] ok
  have "length (resolutionLog sample_resolution) = length (conflicts_in_order sample_detected)"
    by (auto simp: sample_run)
  moreover from log_entry_for_every_conflict
    [of sample_detected always_consensus reliability_resolve
      "detectRemainingConflicts sample_detector"] bad
  have "isl (resolve_detected (detectRemainingConflicts sample_detector) always_consensus
      reliability_resolve sample_detected)"
    by blast
  ultimately show ?thesis
    by (simp add: sample_order sample_resolutions sample_failures sample_run)
qed

text \<open>
  C7, as stated, fails: with a conflict in the dimension \<open>demographic\<close> and one in the
  dimension \<open>behavioral\<close>, in the order in which the profile holds them, the log lists
  \<open>demographic\<close> first and is not sorted by dimension.
\<close>

theorem log_order_counterexample:
  "map_sum id (\<lambda>r. map entryDimension (resolutionLog r))
       (resolveProfileConflicts sample_detector always_reliability reliability_resolve
          sample_profile)
     = Inr [''demographic'', ''demographic'', ''behavioral'']
   \<and> \<not> sorted [''demographic'', ''demographic'', ''behavioral'']"
  using demographic_after_behavioral
  by (simp add: sample_profile_run sample_resolution_def)

text \<open>
  C7, amended. The log is in the order in which the conflicts were detected: dimensions in
  the order of \<open>detectedConflicts\<close> and, within a dimension, conflicts in the order of its
  list. Conflicts are resolved one after the other, so no completion order enters; the log
  is not sorted by name.
\<close>

theorem log_follows_detection_order:
  assumes "resolve_detected remaining select resolve detectedConflicts = Inr res"
  shows "map entryDimension (resolutionLog res) = map fst (conflicts_in_order detectedConflicts)
         \<and> map entryConflict (resolutionLog res)
             = map (\<lambda>dc. description (snd dc)) (conflicts_in_order detectedConflicts)"
  using pass_log [OF resolve_detected_Inr(1) [OF assms]] by simp

theorem log_follows_detection_order_witness:
  "resolve_detected (detectRemainingConflicts sample_detector) always_reliability
     reliability_resolve sample_detected = Inr sample_resolution
   \<and> map entryConflict (resolutionLog sample_resolution)
       = [''demographic.income'', ''demographic.segment'', ''behavioral.tier'']"
  using log_follows_detection_order [OF sample_run] sample_run
  by (simp add: sample_order sample_descriptions)

text \<open>
  C9, as stated, fails: the resolved profile is keyed by dimension and holds resolved values
  of conflicts only. In scenario 4 the attribute \<open>city\<close> of the dimension \<open>demographic\<close> has
  the single value NYC; the resolved profile holds \<open>premium\<close>, the resolved value of another
  attribute, for that dimension, and NYC nowhere.
\<close>

theorem single_value_counterexample:
  "(''demographic'', demographic_attributes) \<in> set sample_profile
   \<and> (''city'', city_candidates) \<in> set demographic_attributes
   \<and> distinct_values 0 city_candidates = [Text ''NYC'']
   \<and> map_sum id resolvedProfile
       (resolveProfileConflicts sample_detector always_reliability reliability_resolve
          sample_profile)
       = Inr [(''demographic'', Text ''premium''), (''behavioral'', Text ''gold'')]
   \<and> Text ''premium'' \<noteq> Text ''NYC'' \<and> Text ''gold'' \<noteq> Text ''NYC''"
  by (simp add: sample_profile_run sample_resolution_def)
     (simp add: sample_profile_def demographic_attributes_def city_candidates_def cand_def
      distinct_values_def)

text \<open>
  C9, amended. With the detector of the specification, an attribute of the profile whose
  candidates hold exactly one distinct value is not reported as a conflict, and when every
  reported conflict is resolved the call returns, the log has one entry for each reported
  conflict and so none for the attribute, and the resolved profile, which is keyed by
  dimension, holds for the dimension of the attribute either nothing or the resolved value
  of a conflict of another attribute of that dimension.
\<close>

theorem single_valued_attribute_not_resolved:
  assumes "distinct (map fst profileDimensions)" and "(d, attrs) \<in> set profileDimensions"
    and "distinct (map fst attrs)" and "(a, cs) \<in> set attrs"
    and "distinct_values tol cs = [v]"
    and "detectConflicts conflictDetector = spec_detectConflicts describe tol"
    and "\<forall>dc\<in>set (conflicts_in_order (detectConflicts conflictDetector profileDimensions)).
           \<not> isl (resolution_of select resolve (snd dc))"
  shows "(\<forall>dc\<in>set (conflicts_in_order (detectConflicts conflictDetector profileDimensions)).
            \<not> (conflictDimension (snd dc) = d \<and> conflictAttribute (snd dc) = a))
         \<and> (\<exists>res. resolveProfileConflicts conflictDetector select resolve profileDimensions
                     = Inr res
              \<and> map entryConflict (resolutionLog res)
                  = map (\<lambda>dc. description (snd dc))
                      (conflicts_in_order (detectConflicts conflictDetector profileDimensions))
              \<and> (map_get (resolvedProfile res) d = None
                  \<or> (\<exists>dc\<in>set (conflicts_in_order
                                 (detectConflicts conflictDetector profileDimensions)).
                        conflictDimension (snd dc) = d \<and> conflictAttribute (snd dc) \<noteq> a
                        \<and> (\<exists>sr. resolution_of select resolve (snd dc) = Inr sr
                               \<and> map_get (resolvedProfile res) d
                                   = Some (resolvedValue (snd sr))))))"
proof -
  let ?flat = "conflicts_in_order (detectConflicts conflictDetector profileDimensions)"
  have flat: "?flat = conflicts_in_order (spec_detectConflicts describe tol profileDimensions)"
    by (simp add: assms(6))
  have other: "\<not> (fst dc = d \<and> conflictAttribute (snd dc) = a)"
    and dim: "conflictDimension (snd dc) = fst dc" if "dc \<in> set ?flat" for dc
    using single_value_not_detected [OF assms(1-5), of dc describe] that unfolding flat
    by blast+
  from resolve_detected_total [OF assms(7)] obtain res where
    res: "resolveProfileConflicts conflictDetector select resolve profileDimensions = Inr res"
    and run: "resolve_detected (detectRemainingConflicts conflictDetector) select resolve
        (detectConflicts conflictDetector profileDimensions) = Inr res"
    unfolding resolveProfileConflicts_def by blast
  note pass = resolve_detected_Inr(1) [OF run]
  have log: "map entryConflict (resolutionLog res) = map (\<lambda>dc. description (snd dc)) ?flat"
    using pass_log [OF pass] by simp
  from resolved_value_origin [OF pass, of d]
  have "map_get (resolvedProfile res) d = None
      \<or> (\<exists>dc\<in>set ?flat. conflictDimension (snd dc) = d \<and> conflictAttribute (snd dc) \<noteq> a
            \<and> (\<exists>sr. resolution_of select resolve (snd dc) = Inr sr
                   \<and> map_get (resolvedProfile res) d = Some (resolvedValue (snd sr))))"
    using other dim by fastforce
  with res log other dim show ?thesis
    by auto
qed

theorem single_valued_attribute_not_resolved_witness:
  "distinct_values 0 city_candidates = [Text ''NYC'']
   \<and> detectConflicts sample_detector = spec_detectConflicts dotted 0
   \<and> conflicts_in_order (detectConflicts sample_detector sample_profile) =
       [(''demographic'', income_conflict), (''demographic'', segment_conflict),
        (''behavioral'', tier_conflict)]
   \<and> conflictAttribute income_conflict \<noteq> ''city''
   \<and> conflictAttribute segment_conflict \<noteq> ''city''
   \<and> resolveProfileConflicts sample_detector always_reliability reliability_resolve
        sample_profile = Inr sample_resolution
   \<and> map entryConflict (resolutionLog sample_resolution)
       = [''demographic.income'', ''demographic.segment'', ''behavioral.tier'']
   \<and> map_get (resolvedProfile sample_resolution) ''demographic'' = Some (Text ''premium'')"
proof -
  have h: "distinct (map fst sample_profile)"
    "(''demographic'', demographic_attributes) \<in> set sample_profile"
    "distinct (map fst demographic_attributes)"
    "(''city'', city_candidates) \<in> set demographic_attributes"
    "distinct_values 0 city_candidates = [Text ''NYC'']"
    "detectConflicts sample_detector = spec_detectConflicts dotted 0"
    by (simp_all add: sample_profile_def demographic_attributes_def city_candidates_def
        cand_def sample_detector_def distinct_values_def)
  have order: "conflicts_in_order (detectConflicts sample_detector sample_profile) =
       [(''demographic'', income_conflict), (''demographic'', segment_conflict),
        (''behavioral'', tier_conflict)]"
    by (simp add: sample_detection sample_order)
  have ok: "\<forall>dc\<in>set (conflicts_in_order (detectConflicts sample_detector sample_profile)).
      \<not> isl (resolution_of always_reliability reliability_resolve (snd dc))"
    by (simp add: order sample_resolutions)
  note facts = single_valued_attribute_not_resolved [OF h ok]
  from facts have "\<not> (conflictDimension (snd (''demographic'', income_conflict)) = ''demographic''
      \<and> conflictAttribute (snd (''demographic'', income_conflict)) = ''city'')"
    and "\<not> (conflictDimension (snd (''demographic'', segment_conflict)) = ''demographic''
      \<and> conflictAttribute (snd (''demographic'', segment_conflict)) = ''city'')"
    by (simp_all add: order)
  then have "conflictAttribute income_conflict \<noteq> ''city''"
    and "conflictAttribute segment_conflict \<noteq> ''city''"
    by (simp_all add: income_conflict_def segment_conflict_def)
  moreover from facts have "map entryConflict (resolutionLog sample_resolution)
      = [''demographic.income'', ''demographic.segment'', ''behavioral.tier'']"
    by (simp add: sample_profile_run order sample_descriptions)
  moreover have "map_get (resolvedProfile sample_resolution) ''demographic'' = Some (Text ''premium'')"
    by (simp add: sample_resolution_def map_get_def)
  ultimately show ?thesis
    using h order sample_profile_run by simp
qed

text \<open>
  C10. The resolved profile is keyed by dimension and holds at most one value for a
  dimension: a dimension without detected conflict is absent, a dimension with conflicts
  holds the resolved value of the last of them, and the log still has one entry for every
  conflict.
\<close>

theorem resolved_profile_last_conflict_wins:
  assumes "resolve_detected remaining select resolve detectedConflicts = Inr res"
  shows "distinct (map fst (resolvedProfile res))
         \<and> length (resolutionLog res) = length (conflicts_in_order detectedConflicts)
         \<and> (filter (\<lambda>dc. fst dc = d) (conflicts_in_order detectedConflicts) = [] \<longrightarrow>
              map_get (resolvedProfile res) d = None)
         \<and> (filter (\<lambda>dc. fst dc = d) (conflicts_in_order detectedConflicts) \<noteq> [] \<longrightarrow>
              (\<exists>sr. resolution_of select resolve
                       (snd (last (filter (\<lambda>dc. fst dc = d) (conflicts_in_order detectedConflicts))))
                       = Inr sr
                 \<and> map_get (resolvedProfile res) d = Some (resolvedValue (snd sr))))"
proof -
  note run = resolve_detected_Inr(1) [OF assms]
  have "distinct (map fst (resolvedProfile res))"
    using pass_distinct [OF run] by simp
  then show ?thesis
    using resolved_log_length [OF assms] pass_profile [OF run, of d] by (simp add: map_get_def)
qed

theorem resolved_profile_last_conflict_wins_witness:
  "resolve_detected (detectRemainingConflicts sample_detector) always_reliability
     reliability_resolve sample_detected = Inr sample_resolution
   \<and> filter (\<lambda>dc. fst dc = ''demographic'') (conflicts_in_order sample_detected)
       = [(''demographic'', income_conflict), (''demographic'', segment_conflict)]
   \<and> map_get (resolvedProfile sample_resolution) ''demographic'' = Some (Text ''premium'')
   \<and> filter (\<lambda>dc. fst dc = ''preference'') (conflicts_in_order sample_detected) = []
   \<and> map_get (resolvedProfile sample_resolution) ''preference'' = None
   \<and> length (resolutionLog sample_resolution) = 3"
proof -
  have f: "filter (\<lambda>dc. fst dc = ''demographic'') (conflicts_in_order sample_detected)
       = [(''demographic'', income_conflict), (''demographic'', segment_conflict)]"
    "filter (\<lambda>dc. fst dc = ''preference'') (conflicts_in_order sample_detected) = []"
    by (simp_all add: sample_order)
  from resolved_profile_last_conflict_wins [OF sample_run, of "''demographic''"]
    resolved_profile_last_conflict_wins [OF sample_run, of "''preference''"] f sample_run
  show ?thesis
    by (simp add: sample_order sample_resolutions)
qed

end
